theory Spec2Isabelle
  imports Main
begin

section \<open>Calendar satisfaction problem solver (csp_solver.py)\<close>

text \<open>
  Conventions of the embedding.
  \<^item> A datetime is a value of an arbitrary type \<open>'d\<close>.
  \<^item> A Python \<open>set\<close> is a list holding its elements in iteration order;
    a list stands for a set when it has no duplicates. \<open>s.copy()\<close> and \<open>list(s)\<close>
    are the same list, \<open>s.remove(x)\<close> is \<open>set_remove\<close>, which raises \<open>KeyError\<close>
    when \<open>x\<close> is absent, \<open>s.add(x)\<close> is \<open>set_add\<close> and \<open>s.pop()\<close> takes the
    element at the position that a parameter \<open>pick\<close> chooses from the worklist and
    the domains, since Python leaves the choice open.
  \<^item> Procedures that mutate \<open>domains\<close> in place return the new list of domains.
  \<^item> A Python exception is a value \<open>Inl e\<close> of the result.
  \<^item> The definitions under the source's names run on an interpreter with no limit on
    the depth of calls. The depth of the recursion of \<open>recursive_backtracker\<close> grows
    with the number of meetings, and the source does nothing about Python's recursion
    limit; the definitions with the suffix \<open>_rl\<close> are the same search with that limit.
\<close>

datatype error = IndexError | ValueError | KeyError | RecursionError

definition set_remove :: "'a \<Rightarrow> 'a list \<Rightarrow> error + 'a list" where
  "set_remove x xs = (if x \<in> set xs then Inr (removeAll x xs) else Inl KeyError)"

subsection \<open>The constraint collaborator (date_constraints)\<close>

text \<open>
  Modelled from the spec: the module \<open>date_constraints\<close> (class \<open>DateConstraint\<close>)
  is imported by csp_solver.py but is not among the sources. The spec (sections 3, 6
  and 9) describes a constraint as a tagged variant with an arity of 1 or 2, a left
  variable index \<open>L_VAL\<close>, for binary constraints a right variable index \<open>R_VAL\<close>, and
  a truth-valued check over concrete datetime values. Variables are positions
  \<open>0..n-1\<close>, hence the indices are natural numbers.
\<close>

datatype 'd DateConstraint =
    Unary nat "'d \<Rightarrow> bool"
  | Binary nat nat "'d \<Rightarrow> 'd \<Rightarrow> bool"

text \<open>Modelled from the spec: \<open>arity() -> 1 | 2\<close>.\<close>

fun arity :: "'d DateConstraint \<Rightarrow> nat" where
  "arity (Unary l p) = 1"
| "arity (Binary l r p) = 2"

text \<open>Modelled from the spec: \<open>L_VAL: int\<close>.\<close>

fun L_VAL :: "'d DateConstraint \<Rightarrow> nat" where
  "L_VAL (Unary l p) = l"
| "L_VAL (Binary l r p) = l"

text \<open>
  Modelled from the spec: \<open>R_VAL: int\<close> for binary constraints only; for a unary
  constraint the attribute is not a variable index, which is \<open>None\<close> here.
\<close>

fun R_VAL :: "'d DateConstraint \<Rightarrow> nat option" where
  "R_VAL (Unary l p) = None"
| "R_VAL (Binary l r p) = Some r"

text \<open>
  Modelled from the spec: \<open>is_satisfied_by_values(*values)\<close> evaluates the constraint
  on concrete candidate values, one for a unary and two for a binary constraint. The
  source passes exactly that many; any other number of values is answered \<open>False\<close>.
\<close>

fun is_satisfied_by_values :: "'d DateConstraint \<Rightarrow> 'd list \<Rightarrow> bool" where
  "is_satisfied_by_values (Unary l p) [v] = p v"
| "is_satisfied_by_values (Binary l r p) [v, w] = p v w"
| "is_satisfied_by_values c vs = False"

text \<open>
  Modelled from the spec: \<open>is_satisfied_by_assignment(assignment)\<close> evaluates the
  constraint against a possibly partial assignment, treating any variable index beyond
  the assignment's current length as not yet constraining, that is, satisfied.
\<close>

fun is_satisfied_by_assignment :: "'d DateConstraint \<Rightarrow> 'd list \<Rightarrow> bool" where
  "is_satisfied_by_assignment (Unary l p) assignment =
     (if l < length assignment then p (assignment ! l) else True)"
| "is_satisfied_by_assignment (Binary l r p) assignment =
     (if l < length assignment \<and> r < length assignment
      then p (assignment ! l) (assignment ! r) else True)"

text \<open>
  Modelled from the spec: \<open>get_reverse()\<close> (binary only) returns an equivalent
  constraint with \<open>L_VAL\<close> and \<open>R_VAL\<close> swapped and the argument order of the check
  swapped. The spec does not say what a unary constraint answers; it raises here.
\<close>

fun get_reverse :: "'d DateConstraint \<Rightarrow> error + 'd DateConstraint" where
  "get_reverse (Binary l r p) = Inr (Binary r l (\<lambda>v w. p w v))"
| "get_reverse (Unary l p) = Inl ValueError"

subsection \<open>Node consistency\<close>

text \<open>
  The innermost loop of \<open>node_consistency\<close>: it answers whether the loop over
  \<open>unary_constraints\<close> reaches \<open>domain.remove(date); break\<close>.
\<close>

fun violates_unary :: "'d DateConstraint list \<Rightarrow> nat \<Rightarrow> 'd \<Rightarrow> bool" where
  "violates_unary [] index date = False"
| "violates_unary (unary_constraint # rest) index date =
     (if L_VAL unary_constraint = index \<and> \<not> is_satisfied_by_values unary_constraint [date]
      then True
      else violates_unary rest index date)"

text \<open>The loop \<open>for date in domain_copy\<close>, mutating the live \<open>domain\<close>.\<close>

fun prune_dates ::
  "'d DateConstraint list \<Rightarrow> nat \<Rightarrow> 'd list \<Rightarrow> 'd list \<Rightarrow> error + 'd list" where
  "prune_dates unary_constraints index [] domain = Inr domain"
| "prune_dates unary_constraints index (date # rest) domain =
     (if violates_unary unary_constraints index date then
        (case set_remove date domain of
           Inl e \<Rightarrow> Inl e
         | Inr domain' \<Rightarrow> prune_dates unary_constraints index rest domain')
      else prune_dates unary_constraints index rest domain)"

text \<open>The loop \<open>for domain in domains\<close> with its counter \<open>index\<close>.\<close>

fun prune_domains ::
  "'d DateConstraint list \<Rightarrow> nat \<Rightarrow> 'd list list \<Rightarrow> error + 'd list list" where
  "prune_domains unary_constraints index [] = Inr []"
| "prune_domains unary_constraints index (domain # rest) =
     (case prune_dates unary_constraints index domain domain of
        Inl e \<Rightarrow> Inl e
      | Inr domain' \<Rightarrow>
          (case prune_domains unary_constraints (Suc index) rest of
             Inl e \<Rightarrow> Inl e
           | Inr rest' \<Rightarrow> Inr (domain' # rest')))"

definition node_consistency ::
  "'d list list \<Rightarrow> 'd DateConstraint list \<Rightarrow> error + 'd list list" where
  "node_consistency domains constraints =
     prune_domains (filter (\<lambda>constraint. arity constraint = 1) constraints) 0 domains"

subsection \<open>Arcs\<close>

record 'd Arc =
  CONSTRAINT :: "'d DateConstraint"
  TAIL :: nat
  HEAD :: nat

text \<open>
  \<open>Arc.__init__\<close>: the head is set only when \<open>constraint.R_VAL\<close> is an integer;
  otherwise the constructor raises \<open>ValueError\<close>.
\<close>

definition Arc_init :: "'d DateConstraint \<Rightarrow> error + 'd Arc" where
  "Arc_init constraint =
     (case R_VAL constraint of
        Some r \<Rightarrow> Inr \<lparr>CONSTRAINT = constraint, TAIL = L_VAL constraint, HEAD = r\<rparr>
      | None \<Rightarrow> Inl ValueError)"

text \<open>\<open>s.add(x)\<close> and \<open>s.pop()\<close> on a set kept as a list.\<close>

definition set_add :: "'a \<Rightarrow> 'a list \<Rightarrow> 'a list" where
  "set_add x xs = (if x \<in> set xs then xs else xs @ [x])"

definition set_pop :: "nat \<Rightarrow> 'a list \<Rightarrow> 'a \<times> 'a list" where
  "set_pop k xs =
     (let i = k mod length xs in (xs ! i, take i xs @ drop (Suc i) xs))"

text \<open>The first loop of \<open>arc_consistency\<close>, which fills the set \<open>arcs\<close>.\<close>

fun build_arcs :: "'d DateConstraint list \<Rightarrow> 'd Arc list \<Rightarrow> error + 'd Arc list" where
  "build_arcs [] arcs = Inr arcs"
| "build_arcs (constraint # rest) arcs =
     (if arity constraint = 2 then
        (case Arc_init constraint of
           Inl e \<Rightarrow> Inl e
         | Inr forward \<Rightarrow>
             (case get_reverse constraint of
                Inl e \<Rightarrow> Inl e
              | Inr reversed \<Rightarrow>
                  (case Arc_init reversed of
                     Inl e \<Rightarrow> Inl e
                   | Inr backward \<Rightarrow> build_arcs rest (set_add backward (set_add forward arcs)))))
      else build_arcs rest arcs)"

subsection \<open>Arc consistency\<close>

text \<open>
  The inner loop of \<open>remove_inconsistent_values\<close> over the head domain: the value
  of \<open>consistent\<close> when the loop ends.
\<close>

fun supported :: "'d DateConstraint \<Rightarrow> 'd \<Rightarrow> 'd list \<Rightarrow> bool" where
  "supported constraint tail_date [] = False"
| "supported constraint tail_date (head_date # rest) =
     (if is_satisfied_by_values constraint [tail_date, head_date] then True
      else supported constraint tail_date rest)"

text \<open>
  The outer loop over the copy \<open>tail_domains\<close>. The head domain is read from the
  live \<open>domains\<close> in every round, as the source does: when head and tail are the same
  variable, earlier removals are seen by later rounds.
\<close>

fun revise_loop ::
  "'d Arc \<Rightarrow> 'd list \<Rightarrow> 'd list list \<Rightarrow> bool \<Rightarrow> error + (bool \<times> 'd list list)" where
  "revise_loop arc [] domains removed = Inr (removed, domains)"
| "revise_loop arc (tail_date # rest) domains removed =
     (if HEAD arc < length domains then
        (if supported (CONSTRAINT arc) tail_date (domains ! HEAD arc)
         then revise_loop arc rest domains removed
         else if TAIL arc < length domains
           then (case set_remove tail_date (domains ! TAIL arc) of
                   Inl e \<Rightarrow> Inl e
                 | Inr tail_domain \<Rightarrow>
                     revise_loop arc rest (domains[TAIL arc := tail_domain]) True)
           else Inl IndexError)
      else Inl IndexError)"

definition remove_inconsistent_values ::
  "'d list list \<Rightarrow> 'd Arc \<Rightarrow> error + (bool \<times> 'd list list)" where
  "remove_inconsistent_values domains arc =
     (if TAIL arc < length domains
      then revise_loop arc (domains ! TAIL arc) domains False
      else Inl IndexError)"

text \<open>The loop \<open>for original_arc in original_arcs\<close> that puts arcs back on the worklist.\<close>

fun requeue :: "'d Arc list \<Rightarrow> 'd Arc \<Rightarrow> 'd Arc list \<Rightarrow> 'd Arc list" where
  "requeue [] arc arcs = arcs"
| "requeue (original_arc # rest) arc arcs =
     requeue rest arc
       (if HEAD original_arc = TAIL arc then set_add original_arc arcs else arcs)"

text \<open>
  The loop \<open>while len(arcs) > 0\<close>. It is defined without a termination argument:
  the answer \<open>None\<close> stands for a loop that never ends.
\<close>

partial_function (option) arc_loop ::
  "('d Arc list \<Rightarrow> 'd list list \<Rightarrow> nat) \<Rightarrow> 'd Arc list \<Rightarrow> 'd Arc list \<Rightarrow> 'd list list
     \<Rightarrow> (error + 'd list list) option" where
  "arc_loop pick original_arcs arcs domains =
     (if length arcs > 0 then
        (case set_pop (pick arcs domains) arcs of
           (arc, arcs') \<Rightarrow>
             (case remove_inconsistent_values domains arc of
                Inl e \<Rightarrow> Some (Inl e)
              | Inr (removed, domains') \<Rightarrow>
                  arc_loop pick original_arcs
                    (if removed then requeue original_arcs arc arcs' else arcs') domains'))
      else Some (Inr domains))"

definition arc_consistency ::
  "('d Arc list \<Rightarrow> 'd list list \<Rightarrow> nat) \<Rightarrow> 'd list list \<Rightarrow> 'd DateConstraint list
     \<Rightarrow> (error + 'd list list) option" where
  "arc_consistency pick domains constraints =
     (case build_arcs constraints [] of
        Inl e \<Rightarrow> Some (Inl e)
      | Inr arcs \<Rightarrow> arc_loop pick arcs arcs domains)"

subsection \<open>Backtracking search\<close>

text \<open>The loop of \<open>is_complete\<close> over the constraints; it has no \<open>break\<close>.\<close>

fun all_hold :: "'d DateConstraint list \<Rightarrow> 'd list \<Rightarrow> bool \<Rightarrow> bool" where
  "all_hold [] assignment completed = completed"
| "all_hold (constraint # rest) assignment completed =
     all_hold rest assignment
       (if \<not> is_satisfied_by_assignment constraint assignment then False else completed)"

definition is_complete :: "'d list \<Rightarrow> 'd list list \<Rightarrow> 'd DateConstraint list \<Rightarrow> bool" where
  "is_complete assignment domains constraints =
     (if length assignment = length domains then all_hold constraints assignment True
      else False)"

text \<open>The loop of \<open>recursive_backtracker\<close> that sets \<open>consistent\<close>, with its \<open>break\<close>.\<close>

fun consistent_with :: "'d DateConstraint list \<Rightarrow> 'd list \<Rightarrow> bool" where
  "consistent_with [] assignment = True"
| "consistent_with (constraint # rest) assignment =
     (if \<not> is_satisfied_by_assignment constraint assignment then False
      else consistent_with rest assignment)"

text \<open>
  \<open>recursive_backtracker\<close> and its loop \<open>for date in domains[variable]\<close>. The source
  appends to and pops from one shared list \<open>assignment\<close>; here the extended list is
  passed down, and the list returned is the one the innermost call completed, which
  is the content of the shared list when the source returns it.
\<close>

function recursive_backtracker ::
    "'d list \<Rightarrow> 'd list list \<Rightarrow> 'd list \<Rightarrow> 'd DateConstraint list \<Rightarrow> error + 'd list option"
  and candidates_loop ::
    "'d list \<Rightarrow> 'd list \<Rightarrow> 'd list list \<Rightarrow> 'd list \<Rightarrow> 'd DateConstraint list
       \<Rightarrow> error + 'd list option" where
  "recursive_backtracker assignment domains date_range constraints =
     (if is_complete assignment domains constraints then Inr (Some assignment)
      else if length assignment < length domains
        then candidates_loop (domains ! length assignment) assignment domains date_range constraints
        else Inl IndexError)"
| "candidates_loop [] assignment domains date_range constraints = Inr None"
| "candidates_loop (date # rest) assignment domains date_range constraints =
     (if consistent_with constraints (assignment @ [date]) then
        (case recursive_backtracker (assignment @ [date]) domains date_range constraints of
           Inl e \<Rightarrow> Inl e
         | Inr (Some result) \<Rightarrow> Inr (Some result)
         | Inr None \<Rightarrow> candidates_loop rest assignment domains date_range constraints)
      else candidates_loop rest assignment domains date_range constraints)"
  by pat_completeness auto
termination
  by (relation "inv_image (less_than <*lex*> less_than)
        (\<lambda>x. case x of
           Inl (assignment, domains, date_range, constraints) \<Rightarrow>
             (Suc (length domains) - length assignment, 0)
         | Inr (dates, assignment, domains, date_range, constraints) \<Rightarrow>
             (length domains - length assignment, Suc (length dates)))")
     auto

declare recursive_backtracker.simps [simp del]

definition solve ::
  "('d Arc list \<Rightarrow> 'd list list \<Rightarrow> nat) \<Rightarrow> nat \<Rightarrow> 'd list \<Rightarrow> 'd DateConstraint list
     \<Rightarrow> (error + 'd list option) option" where
  "solve pick n_meetings date_range constraints =
     (let domains = map (\<lambda>num. date_range) [0..<n_meetings]
      in case node_consistency domains constraints of
           Inl e \<Rightarrow> Some (Inl e)
         | Inr domains \<Rightarrow>
             (case arc_consistency pick domains constraints of
                None \<Rightarrow> None
              | Some (Inl e) \<Rightarrow> Some (Inl e)
              | Some (Inr domains) \<Rightarrow>
                  Some (recursive_backtracker [] domains date_range constraints)))"

subsection \<open>Backtracking search under Python's recursion limit\<close>

text \<open>
  Python raises \<open>RecursionError\<close> at a call for which no frame is left. The search is
  given \<open>free\<close>, the number of frames that are free inside \<open>solve\<close> when it calls
  \<open>recursive_backtracker\<close>. A call of a function of this module takes one frame for
  as long as it runs; \<open>len\<close>, \<open>append\<close>, \<open>pop\<close> and the iteration of a set are
  built in and take none. How many nested frames one call of
  \<open>constraint.is_satisfied_by_assignment(assignment)\<close> needs is decided by the module
  \<open>date_constraints\<close>, which is not among the sources: it is the parameter \<open>cost\<close>.
\<close>

text \<open>The loop of \<open>is_complete\<close>, run with \<open>free\<close> frames left inside \<open>is_complete\<close>.\<close>

fun all_hold_rl ::
  "('d DateConstraint \<Rightarrow> 'd list \<Rightarrow> nat) \<Rightarrow> nat \<Rightarrow> 'd DateConstraint list \<Rightarrow> 'd list \<Rightarrow> bool
     \<Rightarrow> error + bool" where
  "all_hold_rl cost free [] assignment completed = Inr completed"
| "all_hold_rl cost free (constraint # rest) assignment completed =
     (if free < cost constraint assignment then Inl RecursionError
      else all_hold_rl cost free rest assignment
             (if \<not> is_satisfied_by_assignment constraint assignment then False
              else completed))"

text \<open>\<open>is_complete\<close>, called where \<open>free\<close> frames are left; it takes one of them.\<close>

definition is_complete_rl ::
  "('d DateConstraint \<Rightarrow> 'd list \<Rightarrow> nat) \<Rightarrow> nat \<Rightarrow> 'd list \<Rightarrow> 'd list list
     \<Rightarrow> 'd DateConstraint list \<Rightarrow> error + bool" where
  "is_complete_rl cost free assignment domains constraints =
     (if free = 0 then Inl RecursionError
      else if length assignment = length domains
        then all_hold_rl cost (free - 1) constraints assignment True
        else Inr False)"

text \<open>
  The loop of \<open>recursive_backtracker\<close> that sets \<open>consistent\<close>, run with \<open>free\<close>
  frames left inside \<open>recursive_backtracker\<close>.
\<close>

fun consistent_with_rl ::
  "('d DateConstraint \<Rightarrow> 'd list \<Rightarrow> nat) \<Rightarrow> nat \<Rightarrow> 'd DateConstraint list \<Rightarrow> 'd list
     \<Rightarrow> error + bool" where
  "consistent_with_rl cost free [] assignment = Inr True"
| "consistent_with_rl cost free (constraint # rest) assignment =
     (if free < cost constraint assignment then Inl RecursionError
      else if \<not> is_satisfied_by_assignment constraint assignment then Inr False
      else consistent_with_rl cost free rest assignment)"

text \<open>
  \<open>recursive_backtracker\<close>, called where \<open>free\<close> frames are left: it takes one of
  them, and its own calls, the recursive one among them, are made with \<open>free - 1\<close>.
\<close>

function recursive_backtracker_rl ::
    "('d DateConstraint \<Rightarrow> 'd list \<Rightarrow> nat) \<Rightarrow> nat \<Rightarrow> 'd list \<Rightarrow> 'd list list \<Rightarrow> 'd list
       \<Rightarrow> 'd DateConstraint list \<Rightarrow> error + 'd list option"
  and candidates_loop_rl ::
    "('d DateConstraint \<Rightarrow> 'd list \<Rightarrow> nat) \<Rightarrow> nat \<Rightarrow> 'd list \<Rightarrow> 'd list \<Rightarrow> 'd list list
       \<Rightarrow> 'd list \<Rightarrow> 'd DateConstraint list \<Rightarrow> error + 'd list option" where
  "recursive_backtracker_rl cost free assignment domains date_range constraints =
     (if free = 0 then Inl RecursionError
      else
        (case is_complete_rl cost (free - 1) assignment domains constraints of
           Inl e \<Rightarrow> Inl e
         | Inr True \<Rightarrow> Inr (Some assignment)
         | Inr False \<Rightarrow>
             if length assignment < length domains
             then candidates_loop_rl cost (free - 1) (domains ! length assignment)
                    assignment domains date_range constraints
             else Inl IndexError))"
| "candidates_loop_rl cost free [] assignment domains date_range constraints = Inr None"
| "candidates_loop_rl cost free (date # rest) assignment domains date_range constraints =
     (case consistent_with_rl cost free constraints (assignment @ [date]) of
        Inl e \<Rightarrow> Inl e
      | Inr True \<Rightarrow>
          (case recursive_backtracker_rl cost free (assignment @ [date]) domains date_range
                  constraints of
             Inl e \<Rightarrow> Inl e
           | Inr (Some result) \<Rightarrow> Inr (Some result)
           | Inr None \<Rightarrow>
               candidates_loop_rl cost free rest assignment domains date_range constraints)
      | Inr False \<Rightarrow>
          candidates_loop_rl cost free rest assignment domains date_range constraints)"
  by pat_completeness auto
termination
  by (relation "inv_image (less_than <*lex*> less_than)
        (\<lambda>x. case x of
           Inl (cost, free, assignment, domains, date_range, constraints) \<Rightarrow> (free, 0)
         | Inr (cost, free, dates, assignment, domains, date_range, constraints) \<Rightarrow>
             (free, Suc (length dates)))")
     auto

declare recursive_backtracker_rl.simps [simp del]

text \<open>
  \<open>solve\<close> with the recursion limit in its search. The two filters make no recursive
  call: whatever the input, their calls nest no deeper than two functions of this
  module above one method of a constraint. They are run here without the limit, so
  \<open>solve_rl\<close> is \<open>solve\<close> wherever those few frames are free.
\<close>

definition solve_rl ::
  "('d DateConstraint \<Rightarrow> 'd list \<Rightarrow> nat) \<Rightarrow> nat \<Rightarrow> ('d Arc list \<Rightarrow> 'd list list \<Rightarrow> nat) \<Rightarrow> nat
     \<Rightarrow> 'd list \<Rightarrow> 'd DateConstraint list \<Rightarrow> (error + 'd list option) option" where
  "solve_rl cost free pick n_meetings date_range constraints =
     (let domains = map (\<lambda>num. date_range) [0..<n_meetings]
      in case node_consistency domains constraints of
           Inl e \<Rightarrow> Some (Inl e)
         | Inr domains \<Rightarrow>
             (case arc_consistency pick domains constraints of
                None \<Rightarrow> None
              | Some (Inl e) \<Rightarrow> Some (Inl e)
              | Some (Inr domains) \<Rightarrow>
                  Some (recursive_backtracker_rl cost free [] domains date_range constraints)))"

subsection \<open>The same procedures on a store of set objects\<close>

text \<open>
  For the properties about aliasing the sets are objects in a store: an address is a
  position of the store, \<open>domains\<close> is a list of addresses, and a mutation of a set
  changes the store at its address, so that two variables holding the same address
  would share every removal. \<open>s.copy()\<close> puts a new object at the end of the store.
  The copies \<open>list(domain)\<close> and \<open>tail_domains\<close> are local and only iterated, so they
  stay values.
\<close>

type_synonym addr = nat

type_synonym 'd store = "'d list list"

definition copy_set :: "'d store \<Rightarrow> addr \<Rightarrow> 'd store \<times> addr" where
  "copy_set h a = (h @ [h ! a], length h)"

text \<open>The comprehension \<open>[date_range.copy() for num in range(n_meetings)]\<close>.\<close>

fun copy_domains :: "nat list \<Rightarrow> addr \<Rightarrow> 'd store \<Rightarrow> 'd store \<times> addr list" where
  "copy_domains [] date_range h = (h, [])"
| "copy_domains (num # rest) date_range h =
     (case copy_set h date_range of
        (h', domain) \<Rightarrow>
          (case copy_domains rest date_range h' of
             (h'', domains) \<Rightarrow> (h'', domain # domains)))"

fun prune_dates_st ::
  "'d DateConstraint list \<Rightarrow> nat \<Rightarrow> 'd list \<Rightarrow> addr \<Rightarrow> 'd store \<Rightarrow> error + 'd store" where
  "prune_dates_st unary_constraints index [] domain h = Inr h"
| "prune_dates_st unary_constraints index (date # rest) domain h =
     (if violates_unary unary_constraints index date then
        (case set_remove date (h ! domain) of
           Inl e \<Rightarrow> Inl e
         | Inr domain' \<Rightarrow>
             prune_dates_st unary_constraints index rest domain (h[domain := domain']))
      else prune_dates_st unary_constraints index rest domain h)"

fun prune_domains_st ::
  "'d DateConstraint list \<Rightarrow> nat \<Rightarrow> addr list \<Rightarrow> 'd store \<Rightarrow> error + 'd store" where
  "prune_domains_st unary_constraints index [] h = Inr h"
| "prune_domains_st unary_constraints index (domain # rest) h =
     (case prune_dates_st unary_constraints index (h ! domain) domain h of
        Inl e \<Rightarrow> Inl e
      | Inr h' \<Rightarrow> prune_domains_st unary_constraints (Suc index) rest h')"

definition node_consistency_st ::
  "'d store \<Rightarrow> addr list \<Rightarrow> 'd DateConstraint list \<Rightarrow> error + 'd store" where
  "node_consistency_st h domains constraints =
     prune_domains_st (filter (\<lambda>constraint. arity constraint = 1) constraints) 0 domains h"

fun revise_loop_st ::
  "'d Arc \<Rightarrow> 'd list \<Rightarrow> addr list \<Rightarrow> 'd store \<Rightarrow> bool \<Rightarrow> error + (bool \<times> 'd store)" where
  "revise_loop_st arc [] domains h removed = Inr (removed, h)"
| "revise_loop_st arc (tail_date # rest) domains h removed =
     (if HEAD arc < length domains then
        (if supported (CONSTRAINT arc) tail_date (h ! (domains ! HEAD arc))
         then revise_loop_st arc rest domains h removed
         else if TAIL arc < length domains
           then (case set_remove tail_date (h ! (domains ! TAIL arc)) of
                   Inl e \<Rightarrow> Inl e
                 | Inr tail_domain \<Rightarrow>
                     revise_loop_st arc rest domains (h[domains ! TAIL arc := tail_domain]) True)
           else Inl IndexError)
      else Inl IndexError)"

definition remove_inconsistent_values_st ::
  "'d store \<Rightarrow> addr list \<Rightarrow> 'd Arc \<Rightarrow> error + (bool \<times> 'd store)" where
  "remove_inconsistent_values_st h domains arc =
     (if TAIL arc < length domains
      then revise_loop_st arc (h ! (domains ! TAIL arc)) domains h False
      else Inl IndexError)"

text \<open>The sets that the addresses \<open>domains\<close> hold in the store \<open>h\<close>.\<close>

definition view :: "'d store \<Rightarrow> addr list \<Rightarrow> 'd list list" where
  "view h domains = map (\<lambda>a. h ! a) domains"

partial_function (option) arc_loop_st ::
  "('d Arc list \<Rightarrow> 'd list list \<Rightarrow> nat) \<Rightarrow> 'd Arc list \<Rightarrow> 'd Arc list \<Rightarrow> addr list \<Rightarrow> 'd store
     \<Rightarrow> (error + 'd store) option" where
  "arc_loop_st pick original_arcs arcs domains h =
     (if length arcs > 0 then
        (case set_pop (pick arcs (view h domains)) arcs of
           (arc, arcs') \<Rightarrow>
             (case remove_inconsistent_values_st h domains arc of
                Inl e \<Rightarrow> Some (Inl e)
              | Inr (removed, h') \<Rightarrow>
                  arc_loop_st pick original_arcs
                    (if removed then requeue original_arcs arc arcs' else arcs') domains h'))
      else Some (Inr h))"

definition arc_consistency_st ::
  "('d Arc list \<Rightarrow> 'd list list \<Rightarrow> nat) \<Rightarrow> 'd store \<Rightarrow> addr list \<Rightarrow> 'd DateConstraint list
     \<Rightarrow> (error + 'd store) option" where
  "arc_consistency_st pick h domains constraints =
     (case build_arcs constraints [] of
        Inl e \<Rightarrow> Some (Inl e)
      | Inr arcs \<Rightarrow> arc_loop_st pick arcs arcs domains h)"

text \<open>
  \<open>solve\<close> on the store: \<open>date_range\<close> is the address of the caller's set. The
  backtracker only reads the domains and never uses \<open>date_range\<close>, so it is given
  their values. The result carries the final store.
\<close>

definition solve_st ::
  "('d Arc list \<Rightarrow> 'd list list \<Rightarrow> nat) \<Rightarrow> 'd store \<Rightarrow> nat \<Rightarrow> addr \<Rightarrow> 'd DateConstraint list
     \<Rightarrow> (error + ('d store \<times> 'd list option)) option" where
  "solve_st pick h n_meetings date_range constraints =
     (case copy_domains [0..<n_meetings] date_range h of
        (h0, domains) \<Rightarrow>
          (case node_consistency_st h0 domains constraints of
             Inl e \<Rightarrow> Some (Inl e)
           | Inr h1 \<Rightarrow>
               (case arc_consistency_st pick h1 domains constraints of
                  None \<Rightarrow> None
                | Some (Inl e) \<Rightarrow> Some (Inl e)
                | Some (Inr h') \<Rightarrow>
                    (case recursive_backtracker [] (view h' domains) (h' ! date_range)
                            constraints of
                       Inl e \<Rightarrow> Some (Inl e)
                     | Inr solution \<Rightarrow> Some (Inr (h', solution))))))"

text \<open>The addresses are pairwise different and all in the store.\<close>

definition valid :: "'d store \<Rightarrow> addr list \<Rightarrow> bool" where
  "valid h domains \<longleftrightarrow> distinct domains \<and> list_all (\<lambda>a. a < length h) domains"

subsection \<open>Notions used to state the properties\<close>

text \<open>
  An arc is consistent in \<open>domains\<close> when its tail variable exists and every value of
  the tail domain has a supporting value in the head domain.
\<close>

definition arc_consistent :: "'d list list \<Rightarrow> 'd Arc \<Rightarrow> bool" where
  "arc_consistent domains arc \<longleftrightarrow>
     TAIL arc < length domains \<and>
     (\<forall>v \<in> set (domains ! TAIL arc).
        HEAD arc < length domains \<and>
        (\<exists>w \<in> set (domains ! HEAD arc). is_satisfied_by_values (CONSTRAINT arc) [v, w]))"

text \<open>The number of candidate values in all domains together.\<close>

definition total_size :: "'d list list \<Rightarrow> nat" where
  "total_size domains = sum_list (map length domains)"

text \<open>The arcs that \<open>arc_consistency\<close> builds for one constraint.\<close>

fun arcs_of :: "'d DateConstraint \<Rightarrow> 'd Arc set" where
  "arcs_of (Unary l p) = {}"
| "arcs_of (Binary l r p) =
     {\<lparr>CONSTRAINT = Binary l r p, TAIL = l, HEAD = r\<rparr>,
      \<lparr>CONSTRAINT = Binary r l (\<lambda>v w. p w v), TAIL = r, HEAD = l\<rparr>}"

text \<open>Every value of the assignment \<open>s\<close> is still a candidate of its variable.\<close>

definition within :: "'d list \<Rightarrow> 'd list list \<Rightarrow> bool" where
  "within s domains \<longleftrightarrow> (\<forall>i < length s. i < length domains \<and> s ! i \<in> set (domains ! i))"

text \<open>Every variable index that a binary constraint mentions is below \<open>n\<close>.\<close>

definition in_range :: "nat \<Rightarrow> 'd DateConstraint \<Rightarrow> bool" where
  "in_range n constraint \<longleftrightarrow>
     (case R_VAL constraint of Some r \<Rightarrow> L_VAL constraint < n \<and> r < n | None \<Rightarrow> True)"

subsection \<open>Concrete inputs\<close>

text \<open>A choice for \<open>pop\<close>: always the first element in iteration order.\<close>

definition pop_first :: "'a list \<Rightarrow> 'b \<Rightarrow> nat" where
  "pop_first arcs domains = 0"

text \<open>Dates are day numbers; meeting 0 is strictly before meeting 1.\<close>

definition before_0_1 :: "nat DateConstraint" where
  "before_0_1 = Binary 0 1 (<)"


text \<open>Meeting 0 is after day 1.\<close>

definition after_day_1 :: "nat DateConstraint" where
  "after_day_1 = Unary 0 ((<) 1)"

section \<open>Properties\<close>

subsection \<open>Node consistency\<close>

lemma set_remove_Inr: "set_remove x xs = Inr ys \<longleftrightarrow> x \<in> set xs \<and> ys = removeAll x xs"
  by (auto simp: set_remove_def)

lemma violates_unary_iff:
  "violates_unary us i d \<longleftrightarrow> (\<exists>u \<in> set us. L_VAL u = i \<and> \<not> is_satisfied_by_values u [d])"
  by (induction us) auto

lemma prune_dates_result:
  "prune_dates us i dates live = Inr r \<Longrightarrow>
   r = filter (\<lambda>v. \<not> (v \<in> set dates \<and> violates_unary us i v)) live"
proof (induction dates arbitrary: live)
  case Nil
  then show ?case by simp
next
  case (Cons d rest)
  show ?case
  proof (cases "violates_unary us i d")
    case True
    with Cons.prems have "prune_dates us i rest (removeAll d live) = Inr r"
      by (auto simp: set_remove_def split: if_splits)
    from Cons.IH[OF this] True show ?thesis
      by (auto simp: removeAll_filter_not_eq intro!: filter_cong)
  next
    case False
    with Cons.prems have "prune_dates us i rest live = Inr r" by simp
    from Cons.IH[OF this] False show ?thesis
      by (auto intro!: filter_cong)
  qed
qed

lemma prune_dates_returns:
  "distinct dates \<Longrightarrow> set dates \<subseteq> set live \<Longrightarrow> \<exists>r. prune_dates us i dates live = Inr r"
proof (induction dates arbitrary: live)
  case Nil
  then show ?case by simp
next
  case (Cons d rest)
  show ?case
  proof (cases "violates_unary us i d")
    case True
    from Cons.prems have "distinct rest" and "set rest \<subseteq> set (removeAll d live)" by auto
    from Cons.IH[OF this] obtain r where "prune_dates us i rest (removeAll d live) = Inr r" ..
    with True Cons.prems show ?thesis by (simp add: set_remove_def)
  next
    case False
    from Cons.prems have "distinct rest" and "set rest \<subseteq> set live" by auto
    from Cons.IH[OF this] False show ?thesis by simp
  qed
qed

lemma prune_domains_result:
  "prune_domains us i doms = Inr r \<Longrightarrow>
   length r = length doms \<and>
   (\<forall>k < length doms. r ! k = filter (\<lambda>v. \<not> violates_unary us (i + k) v) (doms ! k))"
proof (induction doms arbitrary: i r)
  case Nil
  then show ?case by simp
next
  case (Cons d rest)
  from Cons.prems obtain d' rest' where d': "prune_dates us i d d = Inr d'"
    and rest': "prune_domains us (Suc i) rest = Inr rest'" and r: "r = d' # rest'"
    by (auto split: sum.splits)
  from prune_dates_result[OF d'] have hd: "d' = filter (\<lambda>v. \<not> violates_unary us i v) d"
    by (auto intro!: filter_cong)
  from Cons.IH[OF rest'] have len: "length rest' = length rest"
    and tl: "\<forall>k < length rest. rest' ! k = filter (\<lambda>v. \<not> violates_unary us (Suc i + k) v) (rest ! k)"
    by simp_all
  have "r ! k = filter (\<lambda>v. \<not> violates_unary us (i + k) v) ((d # rest) ! k)"
    if "k < length (d # rest)" for k
  proof (cases k)
    case 0
    with r hd show ?thesis by simp
  next
    case (Suc k')
    with that tl r show ?thesis by simp
  qed
  with len r show ?case by simp
qed

lemma prune_domains_returns:
  "\<forall>d \<in> set doms. distinct d \<Longrightarrow> \<exists>r. prune_domains us i doms = Inr r"
proof (induction doms arbitrary: i)
  case Nil
  then show ?case by simp
next
  case (Cons d rest)
  from Cons.prems have "distinct d" by simp
  then obtain d' where "prune_dates us i d d = Inr d'"
    using prune_dates_returns[of d d us i] by auto
  moreover from Cons.prems Cons.IH[of "Suc i"] obtain rest' where
    "prune_domains us (Suc i) rest = Inr rest'" by auto
  ultimately show ?case by simp
qed

lemma node_consistency_length:
  "node_consistency domains constraints = Inr domains' \<Longrightarrow> length domains' = length domains"
  by (auto simp: node_consistency_def dest: prune_domains_result)

lemma node_consistency_nth:
  "node_consistency domains constraints = Inr domains' \<Longrightarrow> i < length domains \<Longrightarrow>
   domains' ! i =
     filter (\<lambda>v. \<forall>c \<in> set constraints. arity c = 1 \<and> L_VAL c = i \<longrightarrow> is_satisfied_by_values c [v])
       (domains ! i)"
  by (auto simp: node_consistency_def violates_unary_iff dest!: prune_domains_result
      intro!: filter_cong)

lemma node_consistency_returns:
  "\<forall>d \<in> set domains. distinct d \<Longrightarrow> \<exists>r. node_consistency domains constraints = Inr r"
  unfolding node_consistency_def by (rule prune_domains_returns)


text \<open>
  C4 (node consistency prunes exactly): when \<open>node_consistency\<close> returns, the list of
  domains has the same length and the domain of every variable \<open>i\<close> holds exactly
  those of its former values on which every unary constraint with \<open>L_VAL = i\<close>
  evaluates true, in their former order. Unary constraints on other variables and
  binary constraints play no part. It returns on every list of duplicate-free domains.
\<close>

theorem node_consistency_exact:
  "(node_consistency domains constraints = Inr domains' \<longrightarrow>
      length domains' = length domains \<and>
      (\<forall>i < length domains.
         domains' ! i =
           filter (\<lambda>v. \<forall>c \<in> set constraints.
                     arity c = 1 \<and> L_VAL c = i \<longrightarrow> is_satisfied_by_values c [v])
             (domains ! i))) \<and>
   ((\<forall>d \<in> set domains. distinct d) \<longrightarrow>
      (\<exists>result. node_consistency domains constraints = Inr result))"
  using node_consistency_length node_consistency_nth node_consistency_returns by blast

subsection \<open>Revision of one arc\<close>

lemma supported_iff:
  "supported c t hs \<longleftrightarrow> (\<exists>h \<in> set hs. is_satisfied_by_values c [t, h])"
  by (induction hs) auto

lemma total_size_update:
  assumes "i < length doms"
  shows "total_size (doms[i := x]) + length (doms ! i) = total_size doms + length x"
proof -
  have "length (doms ! i) \<le> sum_list (map length doms)"
    using assms by (intro member_le_sum_list) auto
  then show ?thesis
    using assms by (simp add: total_size_def map_update sum_list_update)
qed

lemma length_removeAll_less: "x \<in> set xs \<Longrightarrow> length (removeAll x xs) < length xs"
  by (induction xs) (auto simp: less_Suc_eq_le)

lemma revise_loop_shape:
  "revise_loop a rest doms rm = Inr (r, doms') \<Longrightarrow>
   \<exists>P. doms' = doms[TAIL a := filter P (doms ! TAIL a)]"
proof (induction rest arbitrary: doms rm)
  case Nil
  then have "doms' = doms[TAIL a := filter (\<lambda>v. True) (doms ! TAIL a)]" by simp
  then show ?case by blast
next
  case (Cons d rest)
  show ?case
  proof (cases "supported (CONSTRAINT a) d (doms ! HEAD a)")
    case True
    with Cons.prems have "revise_loop a rest doms rm = Inr (r, doms')"
      by (simp split: if_splits)
    from Cons.IH[OF this] show ?thesis .
  next
    case False
    with Cons.prems have T: "TAIL a < length doms"
      and rec: "revise_loop a rest (doms[TAIL a := removeAll d (doms ! TAIL a)]) True = Inr (r, doms')"
      by (simp_all add: set_remove_def split: if_splits)
    from Cons.IH[OF rec] obtain P where
      "doms' = (doms[TAIL a := removeAll d (doms ! TAIL a)])
                 [TAIL a := filter P ((doms[TAIL a := removeAll d (doms ! TAIL a)]) ! TAIL a)]"
      by blast
    with T have "doms' = doms[TAIL a := filter (\<lambda>x. d \<noteq> x \<and> P x) (doms ! TAIL a)]"
      by (simp add: removeAll_filter_not_eq)
    then show ?thesis by blast
  qed
qed

lemma revise_loop_flag:
  "revise_loop a rest doms rm = Inr (False, doms') \<Longrightarrow>
   doms' = doms \<and> \<not> rm \<and>
   (\<forall>v \<in> set rest. HEAD a < length doms \<and> supported (CONSTRAINT a) v (doms ! HEAD a))"
  by (induction rest arbitrary: doms rm) (auto simp: set_remove_def split: if_splits)

lemma shape_total_le:
  "total_size (doms[t := filter P (doms ! t)]) \<le> total_size doms"
proof (cases "t < length doms")
  case True
  from total_size_update[OF True, of "filter P (doms ! t)"]
  have "total_size (doms[t := filter P (doms ! t)]) + length (doms ! t)
          = total_size doms + length (filter P (doms ! t))" .
  moreover have "length (filter P (doms ! t)) \<le> length (doms ! t)" by simp
  ultimately show ?thesis by linarith
next
  case False
  then have "length doms \<le> t" by simp
  then have "doms[t := filter P (doms ! t)] = doms" by (rule list_update_beyond)
  then show ?thesis by simp
qed

lemma revise_loop_decreases:
  "revise_loop a rest doms False = Inr (True, doms') \<Longrightarrow> total_size doms' < total_size doms"
proof (induction rest arbitrary: doms)
  case Nil
  then show ?case by simp
next
  case (Cons d rest)
  show ?case
  proof (cases "supported (CONSTRAINT a) d (doms ! HEAD a)")
    case True
    with Cons.prems have "revise_loop a rest doms False = Inr (True, doms')"
      by (simp split: if_splits)
    then show ?thesis by (rule Cons.IH)
  next
    case False
    let ?d1 = "doms[TAIL a := removeAll d (doms ! TAIL a)]"
    from False Cons.prems have T: "TAIL a < length doms" and mem: "d \<in> set (doms ! TAIL a)"
      and rec: "revise_loop a rest ?d1 True = Inr (True, doms')"
      by (simp_all add: set_remove_def split: if_splits)
    from revise_loop_shape[OF rec] obtain P where "doms' = ?d1[TAIL a := filter P (?d1 ! TAIL a)]"
      by blast
    then have "total_size doms' \<le> total_size ?d1" by (simp only: shape_total_le)
    moreover from mem have "length (removeAll d (doms ! TAIL a)) < length (doms ! TAIL a)"
      by (rule length_removeAll_less)
    with total_size_update[OF T, of "removeAll d (doms ! TAIL a)"]
    have "total_size ?d1 < total_size doms" by linarith
    ultimately show ?thesis by linarith
  qed
qed

lemma revise_loop_consistent:
  "revise_loop a rest doms rm = Inr (r, doms') \<Longrightarrow> HEAD a \<noteq> TAIL a \<Longrightarrow>
   (\<forall>v \<in> set (doms ! TAIL a) - set rest.
      HEAD a < length doms \<and> supported (CONSTRAINT a) v (doms ! HEAD a)) \<Longrightarrow>
   (\<forall>v \<in> set (doms' ! TAIL a).
      HEAD a < length doms' \<and> supported (CONSTRAINT a) v (doms' ! HEAD a))"
proof (induction rest arbitrary: doms rm)
  case Nil
  then show ?case by simp
next
  case (Cons d rest)
  show ?case
  proof (cases "supported (CONSTRAINT a) d (doms ! HEAD a)")
    case True
    with Cons.prems have H: "HEAD a < length doms" and rec: "revise_loop a rest doms rm = Inr (r, doms')"
      by (simp_all split: if_splits)
    show ?thesis
    proof (rule Cons.IH[OF rec Cons.prems(2)])
      show "\<forall>v\<in>set (doms ! TAIL a) - set rest.
             HEAD a < length doms \<and> supported (CONSTRAINT a) v (doms ! HEAD a)"
        using Cons.prems(3) True H by auto
    qed
  next
    case False
    let ?d1 = "doms[TAIL a := removeAll d (doms ! TAIL a)]"
    from False Cons.prems have T: "TAIL a < length doms"
      and rec: "revise_loop a rest ?d1 True = Inr (r, doms')"
      by (simp_all add: set_remove_def split: if_splits)
    show ?thesis
    proof (rule Cons.IH[OF rec Cons.prems(2)])
      show "\<forall>v\<in>set (?d1 ! TAIL a) - set rest.
             HEAD a < length ?d1 \<and> supported (CONSTRAINT a) v (?d1 ! HEAD a)"
        using Cons.prems(2,3) T by auto
    qed
  qed
qed

lemma revise_loop_no_error:
  "TAIL a < length doms \<Longrightarrow> HEAD a < length doms \<Longrightarrow>
   distinct rest \<Longrightarrow> set rest \<subseteq> set (doms ! TAIL a) \<Longrightarrow>
   \<exists>r doms'. revise_loop a rest doms rm = Inr (r, doms')"
proof (induction rest arbitrary: doms rm)
  case Nil
  then show ?case by simp
next
  case (Cons d rest)
  show ?case
  proof (cases "supported (CONSTRAINT a) d (doms ! HEAD a)")
    case True
    from Cons.prems have "distinct rest" "set rest \<subseteq> set (doms ! TAIL a)" by auto
    from Cons.IH[OF Cons.prems(1,2) this, of rm] True Cons.prems(2) show ?thesis by simp
  next
    case False
    let ?d1 = "doms[TAIL a := removeAll d (doms ! TAIL a)]"
    from Cons.prems have "TAIL a < length ?d1" "HEAD a < length ?d1" "distinct rest"
      "set rest \<subseteq> set (?d1 ! TAIL a)" by auto
    from Cons.IH[OF this, of True] False Cons.prems show ?thesis
      by (simp add: set_remove_def)
  qed
qed



lemma revise_loop_stable:
  "\<forall>v \<in> set rest. HEAD a < length doms \<and> supported (CONSTRAINT a) v (doms ! HEAD a) \<Longrightarrow>
   revise_loop a rest doms rm = Inr (rm, doms)"
  by (induction rest arbitrary: doms rm) auto

lemma riv_shape:
  "remove_inconsistent_values doms a = Inr (r, doms') \<Longrightarrow>
   \<exists>P. doms' = doms[TAIL a := filter P (doms ! TAIL a)]"
  by (auto simp: remove_inconsistent_values_def split: if_splits dest: revise_loop_shape)

lemma riv_length:
  "remove_inconsistent_values doms a = Inr (r, doms') \<Longrightarrow> length doms' = length doms"
  by (auto dest: riv_shape)

lemma riv_tail_range:
  "remove_inconsistent_values doms a = Inr (r, doms') \<Longrightarrow> TAIL a < length doms"
  by (auto simp: remove_inconsistent_values_def split: if_splits)

lemma riv_subset:
  assumes "remove_inconsistent_values doms a = Inr (r, doms')"
  shows "set (doms' ! i) \<subseteq> set (doms ! i)"
proof -
  from assms obtain P where P: "doms' = doms[TAIL a := filter P (doms ! TAIL a)]"
    by (auto dest: riv_shape)
  from assms have T: "TAIL a < length doms" by (rule riv_tail_range)
  show ?thesis
  proof (cases "i = TAIL a")
    case True
    with P T show ?thesis by auto
  next
    case False
    with P have "doms' ! i = doms ! i" by simp
    then show ?thesis by simp
  qed
qed

lemma riv_frame:
  "remove_inconsistent_values doms a = Inr (r, doms') \<Longrightarrow> i \<noteq> TAIL a \<Longrightarrow> doms' ! i = doms ! i"
  by (auto dest: riv_shape)

lemma riv_unchanged:
  "remove_inconsistent_values doms a = Inr (False, doms') \<Longrightarrow>
   doms' = doms \<and> arc_consistent doms a"
  by (auto simp: remove_inconsistent_values_def arc_consistent_def supported_iff
      split: if_splits dest!: revise_loop_flag)

lemma riv_decreases:
  "remove_inconsistent_values doms a = Inr (True, doms') \<Longrightarrow> total_size doms' < total_size doms"
  by (auto simp: remove_inconsistent_values_def split: if_splits intro: revise_loop_decreases)

lemma riv_consistent:
  assumes "remove_inconsistent_values doms a = Inr (r, doms')" and "HEAD a \<noteq> TAIL a"
  shows "arc_consistent doms' a"
proof -
  from assms(1) have T: "TAIL a < length doms"
    and loop: "revise_loop a (doms ! TAIL a) doms False = Inr (r, doms')"
    by (auto simp: remove_inconsistent_values_def split: if_splits)
  have "\<forall>v \<in> set (doms' ! TAIL a).
      HEAD a < length doms' \<and> supported (CONSTRAINT a) v (doms' ! HEAD a)"
    by (rule revise_loop_consistent[OF loop assms(2)]) simp
  moreover have "length doms' = length doms" using assms(1) by (rule riv_length)
  ultimately show ?thesis using T by (auto simp: arc_consistent_def supported_iff)
qed

lemma riv_stable:
  "arc_consistent doms a \<Longrightarrow> remove_inconsistent_values doms a = Inr (False, doms)"
  by (auto simp: remove_inconsistent_values_def arc_consistent_def supported_iff
      intro!: revise_loop_stable)

lemma riv_no_error:
  "TAIL a < length doms \<Longrightarrow> HEAD a < length doms \<Longrightarrow> distinct (doms ! TAIL a) \<Longrightarrow>
   \<exists>r doms'. remove_inconsistent_values doms a = Inr (r, doms')"
  by (simp add: remove_inconsistent_values_def revise_loop_no_error)

lemma riv_distinct:
  assumes "remove_inconsistent_values doms a = Inr (r, doms')"
    and "\<forall>d \<in> set doms. distinct d"
  shows "\<forall>d \<in> set doms'. distinct d"
proof -
  from assms(1) obtain P where P: "doms' = doms[TAIL a := filter P (doms ! TAIL a)]"
    by (auto dest: riv_shape)
  from assms(1) have T: "TAIL a < length doms" by (rule riv_tail_range)
  with assms(2) have "distinct (filter P (doms ! TAIL a))" by simp
  with assms(2) show ?thesis unfolding P by (auto dest: set_update_subset_insert[THEN subsetD])
qed


subsection \<open>The worklist loop\<close>

lemma set_add_set: "set (set_add x xs) = insert x (set xs)"
  by (auto simp: set_add_def)

lemma requeue_set:
  "set (requeue orig a W) = set W \<union> {b \<in> set orig. HEAD b = TAIL a}"
  by (induction orig arbitrary: W) (auto simp: set_add_set)

lemma set_pop_props:
  assumes "arcs \<noteq> []" and "set_pop k arcs = (a, arcs')"
  shows "a \<in> set arcs" and "set arcs' \<subseteq> set arcs" and "set arcs \<subseteq> insert a (set arcs')"
    and "length arcs' < length arcs"
proof -
  let ?i = "k mod length arcs"
  from assms(1) have i: "?i < length arcs" by simp
  from assms(2) have a: "a = arcs ! ?i" and r: "arcs' = take ?i arcs @ drop (Suc ?i) arcs"
    by (simp_all add: set_pop_def Let_def)
  from i a show "a \<in> set arcs" by simp
  from r show "set arcs' \<subseteq> set arcs"
    by (auto dest: in_set_takeD in_set_dropD)
  have "arcs = take ?i arcs @ arcs ! ?i # drop (Suc ?i) arcs"
    using i by (rule id_take_nth_drop)
  then have "set arcs = set (take ?i arcs) \<union> insert (arcs ! ?i) (set (drop (Suc ?i) arcs))"
    by (metis set_append list.simps(15))
  with a r show "set arcs \<subseteq> insert a (set arcs')" by auto
  from i r show "length arcs' < length arcs" by simp
qed

lemma arc_loop_nil: "arc_loop pick orig [] doms = Some (Inr doms)"
  by (subst arc_loop.simps) simp

lemma arc_loop_error:
  "arcs \<noteq> [] \<Longrightarrow> set_pop (pick arcs doms) arcs = (arc, arcs') \<Longrightarrow>
   remove_inconsistent_values doms arc = Inl e \<Longrightarrow>
   arc_loop pick orig arcs doms = Some (Inl e)"
  by (subst arc_loop.simps) simp

lemma arc_loop_step:
  "arcs \<noteq> [] \<Longrightarrow> set_pop (pick arcs doms) arcs = (arc, arcs') \<Longrightarrow>
   remove_inconsistent_values doms arc = Inr (removed, doms') \<Longrightarrow>
   arc_loop pick orig arcs doms =
     arc_loop pick orig (if removed then requeue orig arc arcs' else arcs') doms'"
  by (subst arc_loop.simps) simp

lemma arc_loop_induct:
  assumes step: "\<And>arcs doms.
     (\<And>arc arcs' removed doms'. arcs \<noteq> [] \<Longrightarrow> set_pop (pick arcs doms) arcs = (arc, arcs') \<Longrightarrow>
        remove_inconsistent_values doms arc = Inr (removed, doms') \<Longrightarrow>
        P (if removed then requeue orig arc arcs' else arcs') doms') \<Longrightarrow> P arcs doms"
  shows "P arcs doms"
proof -
  define R where "R = inv_image (less_than <*lex*> less_than)
     (\<lambda>x :: 'a Arc list \<times> 'a list list. (total_size (snd x), length (fst x)))"
  have "wf R" unfolding R_def by (intro wf_inv_image wf_lex_prod wf_less_than)
  then have "P (fst x) (snd x)" for x
  proof (induction x rule: wf_induct_rule)
    case (less x)
    show ?case
    proof (rule step)
      fix arc arcs' removed doms'
      assume ne: "fst x \<noteq> []" and pop: "set_pop (pick (fst x) (snd x)) (fst x) = (arc, arcs')"
        and riv: "remove_inconsistent_values (snd x) arc = Inr (removed, doms')"
      let ?W = "if removed then requeue orig arc arcs' else arcs'"
      have "((?W, doms'), x) \<in> R"
      proof (cases removed)
        case True
        with riv have "total_size doms' < total_size (snd x)" by (simp add: riv_decreases)
        then show ?thesis by (simp add: R_def)
      next
        case False
        with riv have "doms' = snd x" by (simp add: riv_unchanged)
        moreover have "length arcs' < length (fst x)" using ne pop by (rule set_pop_props)
        ultimately show ?thesis using False by (simp add: R_def)
      qed
      from less.IH[OF this] show "P ?W doms'" by simp
    qed
  qed
  from this[of "(arcs, doms)"] show ?thesis by simp
qed

lemma arc_loop_returns: "\<exists>r. arc_loop pick orig arcs doms = Some r"
proof (induction arcs doms rule: arc_loop_induct[where pick = pick and orig = orig])
  case (1 arcs doms)
  show ?case
  proof (cases "arcs = []")
    case True
    then show ?thesis by (simp add: arc_loop_nil)
  next
    case False
    obtain arc arcs' where pop: "set_pop (pick arcs doms) arcs = (arc, arcs')"
      by (cases "set_pop (pick arcs doms) arcs")
    show ?thesis
    proof (cases "remove_inconsistent_values doms arc")
      case (Inl e)
      with False pop show ?thesis by (simp add: arc_loop_error)
    next
      case (Inr p)
      then obtain removed doms' where
        riv: "remove_inconsistent_values doms arc = Inr (removed, doms')"
        by (cases p) simp
      from "1"[OF False pop riv] arc_loop_step[where pick = pick, OF False pop riv, of orig]
      show ?thesis by simp
    qed
  qed
qed

lemma arc_loop_invariant:
  assumes inv: "\<And>arcs doms arc arcs' removed doms'.
      I arcs doms \<Longrightarrow> arcs \<noteq> [] \<Longrightarrow> set_pop (pick arcs doms) arcs = (arc, arcs') \<Longrightarrow>
      remove_inconsistent_values doms arc = Inr (removed, doms') \<Longrightarrow>
      I (if removed then requeue orig arc arcs' else arcs') doms'"
  shows "arc_loop pick orig arcs doms = Some (Inr result) \<Longrightarrow> I arcs doms \<Longrightarrow> I [] result"
proof (induction arcs doms rule: arc_loop_induct[where pick = pick and orig = orig])
  case (1 arcs doms)
  show ?case
  proof (cases "arcs = []")
    case True
    with "1.prems" show ?thesis by (simp add: arc_loop_nil)
  next
    case False
    obtain arc arcs' where pop: "set_pop (pick arcs doms) arcs = (arc, arcs')"
      by (cases "set_pop (pick arcs doms) arcs")
    show ?thesis
    proof (cases "remove_inconsistent_values doms arc")
      case (Inl e)
      with False pop "1.prems"(1) show ?thesis by (simp add: arc_loop_error)
    next
      case (Inr p)
      then obtain removed doms' where
        riv: "remove_inconsistent_values doms arc = Inr (removed, doms')"
        by (cases p) simp
      let ?W = "if removed then requeue orig arc arcs' else arcs'"
      have "arc_loop pick orig ?W doms' = Some (Inr result)"
        using arc_loop_step[where pick = pick, OF False pop riv, of orig] "1.prems"(1) by simp
      moreover have "I ?W doms'" using "1.prems"(2) False pop riv by (rule inv)
      ultimately show ?thesis by (rule "1.IH"[OF False pop riv])
    qed
  qed
qed


lemma arc_consistent_transfer:
  "arc_consistent doms b \<Longrightarrow> length doms' = length doms \<Longrightarrow>
   set (doms' ! TAIL b) \<subseteq> set (doms ! TAIL b) \<Longrightarrow> doms' ! HEAD b = doms ! HEAD b \<Longrightarrow>
   arc_consistent doms' b"
  by (auto simp: arc_consistent_def)

lemma arc_loop_consistent:
  assumes run: "arc_loop pick orig arcs doms = Some (Inr result)"
    and start: "\<forall>a \<in> set orig. a \<notin> set arcs \<longrightarrow> arc_consistent doms a"
  shows "\<forall>a \<in> set orig. arc_consistent result a"
proof -
  have "\<forall>a \<in> set orig. a \<notin> set [] \<longrightarrow> arc_consistent result a"
  proof (rule arc_loop_invariant[where
        I = "\<lambda>arcs doms. \<forall>a \<in> set orig. a \<notin> set arcs \<longrightarrow> arc_consistent doms a", OF _ run start])
    fix arcs doms arc arcs' removed doms'
    assume I: "\<forall>a \<in> set orig. a \<notin> set arcs \<longrightarrow> arc_consistent doms a"
      and ne: "arcs \<noteq> []" and pop: "set_pop (pick arcs doms) arcs = (arc, arcs')"
      and riv: "remove_inconsistent_values doms arc = Inr (removed, doms')"
    let ?W = "if removed then requeue orig arc arcs' else arcs'"
    have cover: "set arcs \<subseteq> insert arc (set arcs')" using ne pop by (rule set_pop_props)
    show "\<forall>b \<in> set orig. b \<notin> set ?W \<longrightarrow> arc_consistent doms' b"
    proof (intro ballI impI)
      fix b assume b: "b \<in> set orig" and nb: "b \<notin> set ?W"
      show "arc_consistent doms' b"
      proof (cases removed)
        case False
        with riv have same: "doms' = doms" and c: "arc_consistent doms arc"
          by (simp_all add: riv_unchanged)
        from nb False have "b \<notin> set arcs'" by simp
        with cover have "b = arc \<or> b \<notin> set arcs" by auto
        with I b c same show ?thesis by auto
      next
        case True
        with nb b have nb': "b \<notin> set arcs'" and hd: "HEAD b \<noteq> TAIL arc"
          by (auto simp: requeue_set)
        show ?thesis
        proof (cases "b = arc")
          case True
          with hd riv show ?thesis by (auto intro: riv_consistent)
        next
          case False
          with cover nb' have "b \<notin> set arcs" by auto
          with I b have "arc_consistent doms b" by simp
          moreover have "length doms' = length doms" using riv by (rule riv_length)
          moreover have "set (doms' ! TAIL b) \<subseteq> set (doms ! TAIL b)" using riv by (rule riv_subset)
          moreover have "doms' ! HEAD b = doms ! HEAD b" using riv hd by (rule riv_frame)
          ultimately show ?thesis by (rule arc_consistent_transfer)
        qed
      qed
    qed
  qed
  then show ?thesis by simp
qed

lemma arc_loop_shrinks:
  assumes run: "arc_loop pick orig arcs doms = Some (Inr result)"
  shows "length result = length doms \<and> (\<forall>i. set (result ! i) \<subseteq> set (doms ! i))"
proof (rule arc_loop_invariant[where
      I = "\<lambda>arcs d. length d = length doms \<and> (\<forall>i. set (d ! i) \<subseteq> set (doms ! i))", OF _ run])
  show "length doms = length doms \<and> (\<forall>i. set (doms ! i) \<subseteq> set (doms ! i))" by simp
next
  fix arcs d arc arcs' removed d'
  assume I: "length d = length doms \<and> (\<forall>i. set (d ! i) \<subseteq> set (doms ! i))"
    and riv: "remove_inconsistent_values d arc = Inr (removed, d')"
  from riv have "length d' = length d" by (rule riv_length)
  moreover have "set (d' ! i) \<subseteq> set (d ! i)" for i using riv by (rule riv_subset)
  ultimately show "length d' = length doms \<and> (\<forall>i. set (d' ! i) \<subseteq> set (doms ! i))"
    using I by (metis subset_trans)
qed

lemma arc_loop_stable:
  "\<forall>a \<in> set arcs. arc_consistent doms a \<Longrightarrow> arc_loop pick orig arcs doms = Some (Inr doms)"
proof (induction arcs doms rule: arc_loop_induct[where pick = pick and orig = orig])
  case (1 arcs doms)
  show ?case
  proof (cases "arcs = []")
    case True
    then show ?thesis by (simp add: arc_loop_nil)
  next
    case False
    obtain arc arcs' where pop: "set_pop (pick arcs doms) arcs = (arc, arcs')"
      by (cases "set_pop (pick arcs doms) arcs")
    from set_pop_props[OF False pop] have "arc \<in> set arcs" and sub: "set arcs' \<subseteq> set arcs"
      by simp_all
    with "1.prems" have "arc_consistent doms arc" by simp
    then have riv: "remove_inconsistent_values doms arc = Inr (False, doms)" by (rule riv_stable)
    from "1.IH"[OF False pop riv] sub "1.prems"
    have "arc_loop pick orig arcs' doms = Some (Inr doms)" by auto
    with arc_loop_step[where pick = pick, OF False pop riv, of orig] show ?thesis by simp
  qed
qed

lemma arc_loop_no_error:
  "\<forall>a \<in> set orig \<union> set arcs. TAIL a < length doms \<and> HEAD a < length doms \<Longrightarrow>
   \<forall>d \<in> set doms. distinct d \<Longrightarrow>
   \<exists>result. arc_loop pick orig arcs doms = Some (Inr result)"
proof (induction arcs doms rule: arc_loop_induct[where pick = pick and orig = orig])
  case (1 arcs doms)
  show ?case
  proof (cases "arcs = []")
    case True
    then show ?thesis by (simp add: arc_loop_nil)
  next
    case False
    obtain arc arcs' where pop: "set_pop (pick arcs doms) arcs = (arc, arcs')"
      by (cases "set_pop (pick arcs doms) arcs")
    from set_pop_props[OF False pop] have arc: "arc \<in> set arcs" and sub: "set arcs' \<subseteq> set arcs"
      by simp_all
    from arc "1.prems"(1) have T: "TAIL arc < length doms" and H: "HEAD arc < length doms"
      by auto
    from T "1.prems"(2) have "distinct (doms ! TAIL arc)" by simp
    with T H obtain removed doms' where
      riv: "remove_inconsistent_values doms arc = Inr (removed, doms')"
      using riv_no_error by blast
    let ?W = "if removed then requeue orig arc arcs' else arcs'"
    have len: "length doms' = length doms" using riv by (rule riv_length)
    have "set ?W \<subseteq> set orig \<union> set arcs" using sub by (auto simp: requeue_set)
    with "1.prems"(1) len
    have rng: "\<forall>a \<in> set orig \<union> set ?W. TAIL a < length doms' \<and> HEAD a < length doms'"
      by auto
    have dis: "\<forall>d \<in> set doms'. distinct d" using riv "1.prems"(2) by (rule riv_distinct)
    from "1.IH"[OF False pop riv rng dis] arc_loop_step[where pick = pick, OF False pop riv, of orig]
    show ?thesis by simp
  qed
qed


lemma build_arcs_set:
  "\<exists>arcs. build_arcs cs acc = Inr arcs \<and> set arcs = set acc \<union> (\<Union>c \<in> set cs. arcs_of c)"
proof (induction cs arbitrary: acc)
  case Nil
  then show ?case by simp
next
  case (Cons c cs)
  show ?case
  proof (cases c)
    case (Unary l p)
    with Cons.IH[of acc] show ?thesis by simp
  next
    case (Binary l r p)
    let ?f = "\<lparr>CONSTRAINT = Binary l r p, TAIL = l, HEAD = r\<rparr>"
    let ?b = "\<lparr>CONSTRAINT = Binary r l (\<lambda>v w. p w v), TAIL = r, HEAD = l\<rparr>"
    from Cons.IH[of "set_add ?b (set_add ?f acc)"] Binary
    show ?thesis by (auto simp: Arc_init_def set_add_set)
  qed
qed

lemma arc_consistency_arcs:
  obtains arcs where "build_arcs cs [] = Inr arcs" and "set arcs = (\<Union>c \<in> set cs. arcs_of c)"
    and "arc_consistency pick doms cs = arc_loop pick arcs arcs doms"
proof -
  from build_arcs_set[of cs "[]"] obtain arcs where
    "build_arcs cs [] = Inr arcs" "set arcs = (\<Union>c \<in> set cs. arcs_of c)" by auto
  moreover from this have "arc_consistency pick doms cs = arc_loop pick arcs arcs doms"
    by (simp add: arc_consistency_def)
  ultimately show ?thesis by (rule that)
qed

text \<open>
  C5 (termination of arc consistency): for every list of domains, every constraint list
  and every choice made by \<open>pop\<close>, the worklist loop ends: \<open>arc_loop\<close> from any
  worklist, and with it \<open>arc_consistency\<close>, has a result (the pruned domains or an
  exception), never the value \<open>None\<close> of a loop that runs forever. The reason is
  that a revision which reports a removal, the only occasion on which arcs are put back,
  leaves strictly fewer values in the domains, and one which reports none leaves the
  domains as they are.
\<close>

theorem arc_consistency_terminates:
  "(\<exists>r. arc_loop pick original_arcs arcs domains = Some r) \<and>
   (\<exists>r. arc_consistency pick domains constraints = Some r) \<and>
   (remove_inconsistent_values domains arc = Inr (removed, domains') \<longrightarrow>
      (if removed then total_size domains' < total_size domains else domains' = domains))"
proof -
  obtain built where
    "arc_consistency pick domains constraints = arc_loop pick built built domains"
    by (rule arc_consistency_arcs)
  moreover have "total_size domains' < total_size domains"
    if "remove_inconsistent_values domains arc = Inr (True, domains')"
    using that by (rule riv_decreases)
  moreover have "domains' = domains"
    if "remove_inconsistent_values domains arc = Inr (False, domains')"
    using riv_unchanged[OF that] by simp
  ultimately show ?thesis by (auto simp: arc_loop_returns)
qed

text \<open>
  C3 (postcondition of arc consistency): when \<open>arc_consistency\<close> returns, for every
  binary constraint of the set, taken forward or reversed, both variable indices are
  domains of the list and every value left in the tail domain has a value in the head
  domain with which the constraint is satisfied.
\<close>

theorem arc_consistency_postcondition:
  assumes run: "arc_consistency pick domains constraints = Some (Inr domains')"
    and c: "c \<in> set constraints" and bin: "arity c = 2"
    and c': "c' = c \<or> get_reverse c = Inr c'"
  shows "\<exists>t h. L_VAL c' = t \<and> R_VAL c' = Some h \<and> t < length domains' \<and> h < length domains' \<and>
           (\<forall>v \<in> set (domains' ! t). \<exists>w \<in> set (domains' ! h). is_satisfied_by_values c' [v, w])"
proof -
  obtain arcs where arcs: "set arcs = (\<Union>c \<in> set constraints. arcs_of c)"
    and eq: "arc_consistency pick domains constraints = arc_loop pick arcs arcs domains"
    by (rule arc_consistency_arcs)
  from run eq have "arc_loop pick arcs arcs domains = Some (Inr domains')" by simp
  then have all: "\<forall>a \<in> set arcs. arc_consistent domains' a"
    by (rule arc_loop_consistent) simp
  from bin obtain l r p where cb: "c = Binary l r p" by (cases c) auto
  let ?f = "\<lparr>CONSTRAINT = Binary l r p, TAIL = l, HEAD = r\<rparr>"
  let ?b = "\<lparr>CONSTRAINT = Binary r l (\<lambda>v w. p w v), TAIL = r, HEAD = l\<rparr>"
  from c cb arcs have "?f \<in> set arcs" "?b \<in> set arcs" by force+
  with all have f: "arc_consistent domains' ?f" and b: "arc_consistent domains' ?b" by simp_all
  from f b have l: "l < length domains'" and r: "r < length domains'"
    by (simp_all add: arc_consistent_def)
  from c' cb have "c' = Binary l r p \<or> c' = Binary r l (\<lambda>v w. p w v)" by auto
  then show ?thesis
  proof
    assume "c' = Binary l r p"
    with f l r show ?thesis by (simp add: arc_consistent_def)
  next
    assume "c' = Binary r l (\<lambda>v w. p w v)"
    with b l r show ?thesis by (simp add: arc_consistent_def)
  qed
qed

lemma arc_consistency_stable:
  assumes "\<forall>c \<in> set constraints. \<forall>a \<in> arcs_of c. arc_consistent domains a"
  shows "arc_consistency pick domains constraints = Some (Inr domains)"
proof -
  obtain arcs where arcs: "set arcs = (\<Union>c \<in> set constraints. arcs_of c)"
    and eq: "arc_consistency pick domains constraints = arc_loop pick arcs arcs domains"
    by (rule arc_consistency_arcs)
  from arcs assms have "\<forall>a \<in> set arcs. arc_consistent domains a" by auto
  then show ?thesis unfolding eq by (rule arc_loop_stable)
qed

lemma arc_consistency_consistent:
  assumes run: "arc_consistency pick domains constraints = Some (Inr domains')"
  shows "\<forall>c \<in> set constraints. \<forall>a \<in> arcs_of c. arc_consistent domains' a"
proof -
  obtain arcs where arcs: "set arcs = (\<Union>c \<in> set constraints. arcs_of c)"
    and eq: "arc_consistency pick domains constraints = arc_loop pick arcs arcs domains"
    by (rule arc_consistency_arcs)
  from run eq have "arc_loop pick arcs arcs domains = Some (Inr domains')" by simp
  then have "\<forall>a \<in> set arcs. arc_consistent domains' a"
    by (rule arc_loop_consistent) simp
  with arcs show ?thesis by auto
qed

text \<open>
  C8 (idempotence of arc consistency): on domains in which every arc of the constraint
  set is consistent, and in particular on the domains returned by an earlier run on the
  same constraints, \<open>arc_consistency\<close> returns the domains unchanged.
\<close>

theorem arc_consistency_idempotent:
  "((\<forall>c \<in> set constraints. \<forall>a \<in> arcs_of c. arc_consistent domains a) \<longrightarrow>
      arc_consistency pick domains constraints = Some (Inr domains)) \<and>
   (arc_consistency pick' domains0 constraints = Some (Inr domains) \<longrightarrow>
      arc_consistency pick domains constraints = Some (Inr domains))"
  using arc_consistency_stable arc_consistency_consistent by blast

lemma arc_consistency_shrinks:
  assumes "arc_consistency pick domains constraints = Some (Inr domains')"
  shows "length domains' = length domains \<and> (\<forall>i. set (domains' ! i) \<subseteq> set (domains ! i))"
proof -
  obtain arcs where
    eq: "arc_consistency pick domains constraints = arc_loop pick arcs arcs domains"
    by (rule arc_consistency_arcs)
  with assms have "arc_loop pick arcs arcs domains = Some (Inr domains')" by simp
  then show ?thesis by (rule arc_loop_shrinks)
qed

lemma arcs_of_in_range:
  "in_range n c \<Longrightarrow> a \<in> arcs_of c \<Longrightarrow> TAIL a < n \<and> HEAD a < n"
  by (cases c) (auto simp: in_range_def)

lemma arc_consistency_no_error:
  assumes "\<forall>c \<in> set constraints. in_range (length domains) c"
    and "\<forall>d \<in> set domains. distinct d"
  shows "\<exists>domains'. arc_consistency pick domains constraints = Some (Inr domains')"
proof -
  obtain arcs where arcs: "set arcs = (\<Union>c \<in> set constraints. arcs_of c)"
    and eq: "arc_consistency pick domains constraints = arc_loop pick arcs arcs domains"
    by (rule arc_consistency_arcs)
  from arcs assms(1)
  have "\<forall>a \<in> set arcs \<union> set arcs. TAIL a < length domains \<and> HEAD a < length domains"
    by (auto dest: arcs_of_in_range)
  then show ?thesis unfolding eq using assms(2) by (rule arc_loop_no_error)
qed

text \<open>
  C9 (filtering only shrinks): a returning \<open>node_consistency\<close> and a returning
  \<open>arc_consistency\<close> keep the number of domains and leave in each domain a subset of
  its values at entry. An emptied domain is no error: on duplicate-free domains
  \<open>node_consistency\<close> always returns, and \<open>arc_consistency\<close> returns whenever the
  binary constraints mention only indices of the list of domains.
\<close>

theorem filtering_monotone:
  "(node_consistency domains constraints = Inr domains' \<longrightarrow>
      length domains' = length domains \<and>
      (\<forall>i < length domains. set (domains' ! i) \<subseteq> set (domains ! i))) \<and>
   (arc_consistency pick domains constraints = Some (Inr domains') \<longrightarrow>
      length domains' = length domains \<and>
      (\<forall>i < length domains. set (domains' ! i) \<subseteq> set (domains ! i))) \<and>
   ((\<forall>d \<in> set domains. distinct d) \<longrightarrow>
      (\<exists>result. node_consistency domains constraints = Inr result) \<and>
      ((\<forall>c \<in> set constraints. in_range (length domains) c) \<longrightarrow>
         (\<exists>result. arc_consistency pick domains constraints = Some (Inr result))))"
proof -
  have "length domains' = length domains \<and>
      (\<forall>i < length domains. set (domains' ! i) \<subseteq> set (domains ! i))"
    if "node_consistency domains constraints = Inr domains'"
    using node_consistency_length[OF that] node_consistency_nth[OF that] by simp
  moreover have "length domains' = length domains \<and>
      (\<forall>i < length domains. set (domains' ! i) \<subseteq> set (domains ! i))"
    if "arc_consistency pick domains constraints = Some (Inr domains')"
    using arc_consistency_shrinks[OF that] by simp
  ultimately show ?thesis
    using arc_consistency_no_error[of constraints domains pick]
      node_consistency_returns[of domains constraints]
    by blast
qed

text \<open>
  C7 (error of the Arc constructor): \<open>Arc_init\<close> raises exactly when the constraint is
  not binary, the exception is \<open>ValueError\<close>, and for a binary constraint it returns
  the arc of that constraint with \<open>TAIL = L_VAL\<close> and \<open>HEAD = R_VAL\<close>.
\<close>

theorem Arc_init_raises_iff:
  "((\<exists>e. Arc_init c = Inl e) \<longleftrightarrow> arity c \<noteq> 2) \<and>
   (arity c \<noteq> 2 \<longrightarrow> Arc_init c = Inl ValueError) \<and>
   (arity c = 2 \<longrightarrow>
      (\<exists>a. Arc_init c = Inr a \<and> CONSTRAINT a = c \<and> TAIL a = L_VAL c \<and> R_VAL c = Some (HEAD a)))"
  by (cases c) (auto simp: Arc_init_def)

subsection \<open>Backtracking\<close>

lemma all_hold_iff:
  "all_hold cs a b \<longleftrightarrow> b \<and> (\<forall>c \<in> set cs. is_satisfied_by_assignment c a)"
  by (induction cs arbitrary: b) auto

lemma consistent_with_iff:
  "consistent_with cs a \<longleftrightarrow> (\<forall>c \<in> set cs. is_satisfied_by_assignment c a)"
  by (induction cs) auto

lemma is_complete_iff:
  "is_complete a doms cs \<longleftrightarrow>
     length a = length doms \<and> (\<forall>c \<in> set cs. is_satisfied_by_assignment c a)"
  by (simp add: is_complete_def all_hold_iff)

lemma satisfied_nil: "is_satisfied_by_assignment c []"
  by (cases c) simp_all


lemma within_snoc:
  "within a doms \<Longrightarrow> length a < length doms \<Longrightarrow> d \<in> set (doms ! length a) \<Longrightarrow>
   within (a @ [d]) doms"
  by (auto simp: within_def nth_append less_Suc_eq)

lemma backtracker_no_error:
  "(length a < length doms \<or> (\<forall>c \<in> set cs. is_satisfied_by_assignment c a)) \<longrightarrow>
     length a \<le> length doms \<longrightarrow> recursive_backtracker a doms dr cs \<noteq> Inl e"
  "length a < length doms \<longrightarrow> candidates_loop dates a doms dr cs \<noteq> Inl e"
proof (induction a doms dr cs and dates a doms dr cs
    rule: recursive_backtracker_candidates_loop.induct)
  case (1 a doms dr cs)
  then show ?case by (auto simp: is_complete_iff recursive_backtracker.simps)
next
  case (2 a doms dr cs)
  then show ?case by simp
next
  case (3 d rest a doms dr cs)
  then show ?case
    by (auto simp: consistent_with_iff split: sum.splits option.splits)
qed

lemma backtracker_sound:
  "within a doms \<longrightarrow> recursive_backtracker a doms dr cs = Inr (Some r) \<longrightarrow>
     is_complete r doms cs \<and> within r doms"
  "within a doms \<longrightarrow> length a < length doms \<longrightarrow> set dates \<subseteq> set (doms ! length a) \<longrightarrow>
     candidates_loop dates a doms dr cs = Inr (Some r) \<longrightarrow>
     is_complete r doms cs \<and> within r doms"
proof (induction a doms dr cs and dates a doms dr cs
    rule: recursive_backtracker_candidates_loop.induct)
  case (1 a doms dr cs)
  then show ?case by (auto simp: recursive_backtracker.simps split: if_splits)
next
  case (2 a doms dr cs)
  then show ?case by simp
next
  case (3 d rest a doms dr cs)
  show ?case
  proof (intro impI)
    assume w: "within a doms" and l: "length a < length doms"
      and sub: "set (d # rest) \<subseteq> set (doms ! length a)"
      and run: "candidates_loop (d # rest) a doms dr cs = Inr (Some r)"
    from w l sub have w': "within (a @ [d]) doms" by (auto intro: within_snoc)
    from sub have sub': "set rest \<subseteq> set (doms ! length a)" by simp
    show "is_complete r doms cs \<and> within r doms"
    proof (cases "consistent_with cs (a @ [d])")
      case True
      show ?thesis
      proof (cases "recursive_backtracker (a @ [d]) doms dr cs = Inr (Some r)")
        case True
        with "3.IH"(1) \<open>consistent_with cs (a @ [d])\<close> w' show ?thesis by simp
      next
        case False
        with run True have none: "recursive_backtracker (a @ [d]) doms dr cs = Inr None"
          and rest: "candidates_loop rest a doms dr cs = Inr (Some r)"
          by (auto split: sum.splits option.splits)
        from "3.IH"(2)[OF True none refl] w l sub' rest show ?thesis by simp
      qed
    next
      case False
      with run have "candidates_loop rest a doms dr cs = Inr (Some r)" by simp
      with "3.IH"(3)[OF False] w l sub' show ?thesis by simp
    qed
  qed
qed


text \<open>
  C10 (index safety of the backtracker): started on the empty assignment, as \<open>solve\<close>
  does, \<open>recursive_backtracker\<close> never raises, whatever the domains and constraints:
  no call reaches the read of \<open>domains[len(assignment)]\<close> out of range, since an
  exception of an inner call would be the result of the outermost one. In the first
  call, and in every inner call, which is made on an assignment that passed the check
  of all constraints and is no longer than \<open>domains\<close>, a false \<open>is_complete\<close> leaves
  \<open>len(assignment) < len(domains)\<close>.
\<close>

theorem backtracker_index_safe:
  "recursive_backtracker [] domains date_range constraints \<noteq> Inl e \<and>
   (\<not> is_complete [] domains constraints \<longrightarrow> 0 < length domains) \<and>
   (consistent_with constraints assignment \<longrightarrow> length assignment \<le> length domains \<longrightarrow>
      \<not> is_complete assignment domains constraints \<longrightarrow> length assignment < length domains)"
  using backtracker_no_error(1)[of "[]" domains constraints date_range e]
  by (auto simp: satisfied_nil is_complete_iff consistent_with_iff)

subsection \<open>The solver\<close>





text \<open>
  C1 (soundness of solve): an assignment returned by \<open>solve\<close> has length
  \<open>n_meetings\<close> and satisfies \<open>is_satisfied_by_assignment\<close> of every constraint.
\<close>

theorem solve_sound:
  assumes "solve pick n_meetings date_range constraints = Some (Inr (Some a))"
  shows "length a = n_meetings \<and> (\<forall>c \<in> set constraints. is_satisfied_by_assignment c a)"
proof -
  let ?d0 = "map (\<lambda>num. date_range) [0..<n_meetings]"
  from assms obtain d1 d2 where nc: "node_consistency ?d0 constraints = Inr d1"
    and ac: "arc_consistency pick d1 constraints = Some (Inr d2)"
    and rb: "recursive_backtracker [] d2 date_range constraints = Inr (Some a)"
    by (auto simp: solve_def Let_def split: option.splits sum.splits)
  from ac have "length d2 = length d1" by (simp add: arc_consistency_shrinks)
  with nc have "length d2 = n_meetings" by (simp add: node_consistency_length)
  moreover from rb have "is_complete a d2 constraints"
    using backtracker_sound(1)[of "[]" d2 date_range constraints a] by (simp add: within_def)
  ultimately show ?thesis by (simp add: is_complete_iff)
qed


subsection \<open>The search under the recursion limit\<close>




lemma all_hold_rl_cases:
  "all_hold_rl cost free cs a b = Inl RecursionError \<or>
   all_hold_rl cost free cs a b = Inr (all_hold cs a b)"
  by (induction cs arbitrary: b) auto

lemma consistent_with_rl_cases:
  "consistent_with_rl cost free cs a = Inl RecursionError \<or>
   consistent_with_rl cost free cs a = Inr (consistent_with cs a)"
  by (induction cs) auto

lemma is_complete_rl_cases:
  "is_complete_rl cost free a doms cs = Inl RecursionError \<or>
   is_complete_rl cost free a doms cs = Inr (is_complete a doms cs)"
  using all_hold_rl_cases[of cost "free - 1" cs a True]
  by (auto simp: is_complete_rl_def is_complete_def)

lemma backtracker_rl_cases:
  "recursive_backtracker_rl cost free a doms dr cs = Inl RecursionError \<or>
   recursive_backtracker_rl cost free a doms dr cs = recursive_backtracker a doms dr cs"
  "candidates_loop_rl cost free dates a doms dr cs = Inl RecursionError \<or>
   candidates_loop_rl cost free dates a doms dr cs = candidates_loop dates a doms dr cs"
proof (induction cost free a doms dr cs and cost free dates a doms dr cs
    rule: recursive_backtracker_rl_candidates_loop_rl.induct)
  case (1 cost free a doms dr cs)
  show ?case
  proof (cases "free = 0")
    case True
    then show ?thesis by (simp add: recursive_backtracker_rl.simps)
  next
    case False
    from is_complete_rl_cases[of cost "free - 1" a doms cs] show ?thesis
    proof
      assume "is_complete_rl cost (free - 1) a doms cs = Inl RecursionError"
      with False show ?thesis by (simp add: recursive_backtracker_rl.simps)
    next
      assume ok: "is_complete_rl cost (free - 1) a doms cs = Inr (is_complete a doms cs)"
      show ?thesis
      proof (cases "is_complete a doms cs")
        case True
        with ok False show ?thesis
          by (simp add: recursive_backtracker_rl.simps recursive_backtracker.simps)
      next
        case nc: False
        show ?thesis
        proof (cases "length a < length doms")
          case True
          from "1.IH"[OF False ok _ True] nc
          have "candidates_loop_rl cost (free - 1) (doms ! length a) a doms dr cs =
                  Inl RecursionError \<or>
                candidates_loop_rl cost (free - 1) (doms ! length a) a doms dr cs =
                  candidates_loop (doms ! length a) a doms dr cs"
            by simp
          with ok False nc True show ?thesis
            by (auto simp: recursive_backtracker_rl.simps recursive_backtracker.simps)
        next
          case False
          with ok \<open>free \<noteq> 0\<close> nc show ?thesis
            by (simp add: recursive_backtracker_rl.simps recursive_backtracker.simps)
        qed
      qed
    qed
  qed
next
  case (2 cost free a doms dr cs)
  then show ?case by simp
next
  case (3 cost free d rest a doms dr cs)
  from consistent_with_rl_cases[of cost free cs "a @ [d]"] show ?case
  proof
    assume "consistent_with_rl cost free cs (a @ [d]) = Inl RecursionError"
    then show ?thesis by simp
  next
    assume ok: "consistent_with_rl cost free cs (a @ [d]) = Inr (consistent_with cs (a @ [d]))"
    show ?thesis
    proof (cases "consistent_with cs (a @ [d])")
      case False
      with "3.IH"(3) ok show ?thesis by auto
    next
      case True
      with ok have ok': "consistent_with_rl cost free cs (a @ [d]) = Inr True" by simp
      from "3.IH"(1) ok'
      have rb: "recursive_backtracker_rl cost free (a @ [d]) doms dr cs = Inl RecursionError \<or>
        recursive_backtracker_rl cost free (a @ [d]) doms dr cs =
          recursive_backtracker (a @ [d]) doms dr cs" by simp
      then show ?thesis
      proof
        assume "recursive_backtracker_rl cost free (a @ [d]) doms dr cs = Inl RecursionError"
        with ok True show ?thesis by simp
      next
        assume eq: "recursive_backtracker_rl cost free (a @ [d]) doms dr cs =
          recursive_backtracker (a @ [d]) doms dr cs"
        show ?thesis
        proof (cases "recursive_backtracker (a @ [d]) doms dr cs")
          case (Inl e)
          with eq ok True show ?thesis by simp
        next
          case (Inr res)
          show ?thesis
          proof (cases res)
            case None
            from eq Inr None
            have "recursive_backtracker_rl cost free (a @ [d]) doms dr cs = Inr None" by simp
            from "3.IH"(2)[OF ok' refl this refl]
            have "candidates_loop_rl cost free rest a doms dr cs = Inl RecursionError \<or>
              candidates_loop_rl cost free rest a doms dr cs = candidates_loop rest a doms dr cs" .
            with eq Inr None ok True show ?thesis by auto
          next
            case (Some r)
            with eq Inr ok True show ?thesis by simp
          qed
        qed
      qed
    qed
  qed
qed



lemma solve_rl_cases:
  "solve_rl cost free pick n dr cs = Some (Inl RecursionError) \<or>
   solve_rl cost free pick n dr cs = solve pick n dr cs"
proof (cases "node_consistency (map (\<lambda>num. dr) [0..<n]) cs")
  case (Inl e)
  then show ?thesis by (simp add: solve_rl_def solve_def)
next
  case nc: (Inr d1)
  show ?thesis
  proof (cases "arc_consistency pick d1 cs")
    case None
    with nc show ?thesis by (simp add: solve_rl_def solve_def)
  next
    case (Some res)
    show ?thesis
    proof (cases res)
      case (Inl e)
      with nc Some show ?thesis by (simp add: solve_rl_def solve_def)
    next
      case (Inr d2)
      with nc Some backtracker_rl_cases(1)[of cost free "[]" d2 dr cs] show ?thesis
        by (auto simp: solve_rl_def solve_def)
    qed
  qed
qed







subsection \<open>The store and the values agree\<close>

lemma valid_nth: "valid h refs \<Longrightarrow> i < length refs \<Longrightarrow> refs ! i < length h"
  by (simp add: valid_def list_all_length)

lemma valid_update: "valid (h[a := x]) refs = valid h refs"
  by (simp add: valid_def)

lemma valid_length: "length h' = length h \<Longrightarrow> valid h' refs = valid h refs"
  by (simp add: valid_def)

lemma view_length: "length (view h refs) = length refs"
  by (simp add: view_def)

lemma view_nth: "i < length refs \<Longrightarrow> view h refs ! i = h ! (refs ! i)"
  by (simp add: view_def)

lemma view_update:
  assumes "valid h refs" and "t < length refs"
  shows "view (h[refs ! t := x]) refs = (view h refs)[t := x]"
proof (rule nth_equalityI)
  show "length (view (h[refs ! t := x]) refs) = length ((view h refs)[t := x])"
    by (simp add: view_length)
next
  fix i assume "i < length (view (h[refs ! t := x]) refs)"
  then have i: "i < length refs" by (simp add: view_length)
  from assms(1) have d: "distinct refs" by (simp add: valid_def)
  from assms i have lt: "refs ! t < length h" by (simp add: valid_nth)
  show "view (h[refs ! t := x]) refs ! i = (view h refs)[t := x] ! i"
  proof (cases "i = t")
    case True
    with i lt show ?thesis by (simp add: view_nth view_length)
  next
    case False
    with d i assms(2) have "refs ! i \<noteq> refs ! t" by (simp add: nth_eq_iff_index_eq)
    with False i show ?thesis by (simp add: view_nth view_length)
  qed
qed

lemma view_cong: "(\<And>a. a \<in> set refs \<Longrightarrow> h' ! a = h ! a) \<Longrightarrow> view h' refs = view h refs"
  by (simp add: view_def)

lemma view_Cons: "view h (a # refs) = h ! a # view h refs"
  by (simp add: view_def)

lemma view_frame: "a \<notin> set refs \<Longrightarrow> view (h[a := x]) refs = view h refs"
  by (rule view_cong) (metis nth_list_update_neq)

lemma prune_dates_st_refines:
  "a < length h \<Longrightarrow>
   prune_dates_st us i dates a h = map_sum id (\<lambda>d. h[a := d]) (prune_dates us i dates (h ! a))"
proof (induction dates arbitrary: h)
  case Nil
  then show ?case by simp
next
  case (Cons d rest)
  show ?case
  proof (cases "violates_unary us i d \<and> d \<in> set (h ! a)")
    case True
    let ?h1 = "h[a := removeAll d (h ! a)]"
    from Cons.prems have "a < length ?h1" by simp
    from Cons.IH[OF this] Cons.prems True show ?thesis
      by (simp add: set_remove_def)
  next
    case False
    with Cons.IH[OF Cons.prems] show ?thesis by (auto simp: set_remove_def)
  qed
qed

lemma prune_domains_st_refines:
  "valid h refs \<Longrightarrow>
   prune_domains us i (view h refs) =
     map_sum id (\<lambda>h'. view h' refs) (prune_domains_st us i refs h) \<and>
   (\<forall>h'. prune_domains_st us i refs h = Inr h' \<longrightarrow>
      length h' = length h \<and> (\<forall>a. a \<notin> set refs \<longrightarrow> h' ! a = h ! a))"
proof (induction refs arbitrary: i h)
  case Nil
  then show ?case by (simp add: view_def)
next
  case (Cons a rest)
  from Cons.prems have a: "a < length h" and na: "a \<notin> set rest" and v: "valid h rest"
    by (simp_all add: valid_def)
  note st = prune_dates_st_refines[OF a, of us i "h ! a"]
  show ?case
  proof (cases "prune_dates us i (h ! a) (h ! a)")
    case (Inl e)
    with st show ?thesis by (simp add: view_Cons)
  next
    case (Inr d')
    let ?h1 = "h[a := d']"
    from Inr st have step: "prune_domains_st us i (a # rest) h = prune_domains_st us (Suc i) rest ?h1"
      by simp
    from v have v1: "valid ?h1 rest" by (simp add: valid_update)
    from na have same: "view ?h1 rest = view h rest" by (rule view_frame)
    note ih = Cons.IH[OF v1, of "Suc i", unfolded same]
    have eq: "prune_domains us (Suc i) (view h rest) =
          map_sum id (\<lambda>h'. view h' rest) (prune_domains_st us (Suc i) rest ?h1)"
      using ih by (rule conjunct1)
    have fr: "\<forall>h'. prune_domains_st us (Suc i) rest ?h1 = Inr h' \<longrightarrow>
          length h' = length ?h1 \<and> (\<forall>b. b \<notin> set rest \<longrightarrow> h' ! b = ?h1 ! b)"
      using ih by (rule conjunct2)
    show ?thesis
    proof (cases "prune_domains_st us (Suc i) rest ?h1")
      case (Inl e)
      with eq Inr step show ?thesis by (simp add: view_Cons)
    next
      case r: (Inr h')
      with fr have len: "length h' = length h"
        and frame: "\<forall>b. b \<notin> set rest \<longrightarrow> h' ! b = ?h1 ! b" by simp_all
      from frame na a have "h' ! a = d'" by simp
      moreover from frame have "\<forall>b. b \<notin> set (a # rest) \<longrightarrow> h' ! b = h ! b" by simp
      ultimately show ?thesis using eq Inr step r len by (simp add: view_Cons)
    qed
  qed
qed

lemma node_consistency_st_refines:
  "valid h refs \<Longrightarrow>
   node_consistency (view h refs) cs =
     map_sum id (\<lambda>h'. view h' refs) (node_consistency_st h refs cs) \<and>
   (\<forall>h'. node_consistency_st h refs cs = Inr h' \<longrightarrow>
      length h' = length h \<and> (\<forall>a. a \<notin> set refs \<longrightarrow> h' ! a = h ! a))"
  unfolding node_consistency_st_def node_consistency_def by (rule prune_domains_st_refines)

lemma revise_loop_st_frame:
  "revise_loop_st arc rest refs h rm = Inr (r, h') \<Longrightarrow>
   length h' = length h \<and> (\<forall>a. a \<noteq> refs ! TAIL arc \<longrightarrow> h' ! a = h ! a)"
proof (induction rest arbitrary: h rm)
  case Nil
  then show ?case by simp
next
  case (Cons d rest)
  show ?case
  proof (cases "supported (CONSTRAINT arc) d (h ! (refs ! HEAD arc))")
    case True
    with Cons.prems have "revise_loop_st arc rest refs h rm = Inr (r, h')"
      by (simp split: if_splits)
    then show ?thesis by (rule Cons.IH)
  next
    case False
    let ?h1 = "h[refs ! TAIL arc := removeAll d (h ! (refs ! TAIL arc))]"
    from False Cons.prems have rec: "revise_loop_st arc rest refs ?h1 True = Inr (r, h')"
      by (simp add: set_remove_def split: if_splits)
    from Cons.IH[OF rec] show ?thesis by simp
  qed
qed

lemma revise_loop_st_refines:
  "valid h refs \<Longrightarrow>
   revise_loop arc rest (view h refs) rm =
     map_sum id (\<lambda>(r, h'). (r, view h' refs)) (revise_loop_st arc rest refs h rm)"
proof (induction rest arbitrary: h rm)
  case Nil
  then show ?case by simp
next
  case (Cons d rest)
  show ?case
  proof (cases "HEAD arc < length refs \<and> TAIL arc < length refs \<and>
                \<not> supported (CONSTRAINT arc) d (h ! (refs ! HEAD arc)) \<and>
                d \<in> set (h ! (refs ! TAIL arc))")
    case False
    with Cons.IH[OF Cons.prems, of rm] show ?thesis
      by (auto simp: view_length view_nth set_remove_def)
  next
    case True
    let ?h1 = "h[refs ! TAIL arc := removeAll d (h ! (refs ! TAIL arc))]"
    have v1: "valid ?h1 refs" using Cons.prems by (simp add: valid_update)
    have vw: "view ?h1 refs = (view h refs)[TAIL arc := removeAll d (view h refs ! TAIL arc)]"
      using Cons.prems True by (simp add: view_update view_nth)
    from Cons.IH[OF v1, of True] True show ?thesis
      unfolding vw by (simp add: view_length view_nth set_remove_def)
  qed
qed

lemma riv_st_tail:
  "remove_inconsistent_values_st h refs arc = Inr (r, h') \<Longrightarrow>
   TAIL arc < length refs \<and> length h' = length h \<and>
   (\<forall>a. a \<noteq> refs ! TAIL arc \<longrightarrow> h' ! a = h ! a)"
  by (auto simp: remove_inconsistent_values_st_def split: if_splits dest: revise_loop_st_frame)

lemma riv_st_frame:
  assumes "remove_inconsistent_values_st h refs arc = Inr (r, h')"
  shows "length h' = length h \<and> (\<forall>a. a \<notin> set refs \<longrightarrow> h' ! a = h ! a)"
proof -
  from riv_st_tail[OF assms] have T: "TAIL arc < length refs" and len: "length h' = length h"
    and fr: "\<forall>a. a \<noteq> refs ! TAIL arc \<longrightarrow> h' ! a = h ! a" by simp_all
  have "h' ! a = h ! a" if "a \<notin> set refs" for a
  proof -
    from T that have "a \<noteq> refs ! TAIL arc" by (metis nth_mem)
    with fr show ?thesis by simp
  qed
  with len show ?thesis by simp
qed

lemma riv_st_local:
  assumes "remove_inconsistent_values_st h refs arc = Inr (r, h')"
    and "distinct refs" and "j < length refs" and "j \<noteq> TAIL arc"
  shows "h' ! (refs ! j) = h ! (refs ! j)"
proof -
  from riv_st_tail[OF assms(1)] have T: "TAIL arc < length refs"
    and fr: "\<forall>a. a \<noteq> refs ! TAIL arc \<longrightarrow> h' ! a = h ! a" by simp_all
  from assms(2-4) T have "refs ! j \<noteq> refs ! TAIL arc" by (simp add: nth_eq_iff_index_eq)
  with fr show ?thesis by simp
qed

lemma riv_st_refines:
  "valid h refs \<Longrightarrow>
   remove_inconsistent_values (view h refs) arc =
     map_sum id (\<lambda>(r, h'). (r, view h' refs)) (remove_inconsistent_values_st h refs arc)"
  by (simp add: remove_inconsistent_values_st_def remove_inconsistent_values_def
      view_length view_nth revise_loop_st_refines)

lemma arc_loop_st_nil: "arc_loop_st pick orig [] refs h = Some (Inr h)"
  by (subst arc_loop_st.simps) simp

lemma arc_loop_st_error:
  "arcs \<noteq> [] \<Longrightarrow> set_pop (pick arcs (view h refs)) arcs = (arc, arcs') \<Longrightarrow>
   remove_inconsistent_values_st h refs arc = Inl e \<Longrightarrow>
   arc_loop_st pick orig arcs refs h = Some (Inl e)"
  by (subst arc_loop_st.simps) simp

lemma arc_loop_st_step:
  "arcs \<noteq> [] \<Longrightarrow> set_pop (pick arcs (view h refs)) arcs = (arc, arcs') \<Longrightarrow>
   remove_inconsistent_values_st h refs arc = Inr (removed, h') \<Longrightarrow>
   arc_loop_st pick orig arcs refs h =
     arc_loop_st pick orig (if removed then requeue orig arc arcs' else arcs') refs h'"
  by (subst arc_loop_st.simps) simp

lemma arc_loop_st_refines:
  "valid h refs \<Longrightarrow> doms = view h refs \<Longrightarrow>
   arc_loop pick orig arcs doms =
     map_option (map_sum id (\<lambda>h'. view h' refs)) (arc_loop_st pick orig arcs refs h) \<and>
   (\<forall>h'. arc_loop_st pick orig arcs refs h = Some (Inr h') \<longrightarrow>
      length h' = length h \<and> (\<forall>a. a \<notin> set refs \<longrightarrow> h' ! a = h ! a))"
proof (induction arcs doms arbitrary: h rule: arc_loop_induct[where pick = pick and orig = orig])
  case (1 arcs doms)
  show ?case
  proof (cases "arcs = []")
    case True
    have "arc_loop pick orig [] doms = Some (Inr doms)" by (rule arc_loop_nil)
    moreover have "arc_loop_st pick orig [] refs h = Some (Inr h)" by (rule arc_loop_st_nil)
    ultimately show ?thesis using True "1.prems"(2) by simp
  next
    case False
    obtain arc arcs' where pop: "set_pop (pick arcs doms) arcs = (arc, arcs')"
      by (cases "set_pop (pick arcs doms) arcs")
    from pop "1.prems"(2) have pop': "set_pop (pick arcs (view h refs)) arcs = (arc, arcs')"
      by simp
    note ref = riv_st_refines[OF "1.prems"(1), of arc]
    show ?thesis
    proof (cases "remove_inconsistent_values_st h refs arc")
      case (Inl e)
      with ref "1.prems"(2) have riv: "remove_inconsistent_values doms arc = Inl e" by simp
      from arc_loop_error[where pick = pick, OF False pop riv, of orig] arc_loop_st_error[where pick = pick, OF False pop' Inl, of orig]
      show ?thesis by simp
    next
      case (Inr p)
      then obtain removed h1 where
        st: "remove_inconsistent_values_st h refs arc = Inr (removed, h1)"
        by (cases p) simp
      with ref "1.prems"(2) have
        riv: "remove_inconsistent_values doms arc = Inr (removed, view h1 refs)" by simp
      from riv_st_frame[OF st]
      have l1: "length h1 = length h" and f1: "\<forall>a. a \<notin> set refs \<longrightarrow> h1 ! a = h ! a"
        by simp_all
      from "1.prems"(1) have v1: "valid h1 refs" unfolding valid_length[OF l1] .
      define W where "W = (if removed then requeue orig arc arcs' else arcs')"
      have ih: "arc_loop pick orig W (view h1 refs) =
              map_option (map_sum id (\<lambda>h'. view h' refs)) (arc_loop_st pick orig W refs h1) \<and>
            (\<forall>h'. arc_loop_st pick orig W refs h1 = Some (Inr h') \<longrightarrow>
               length h' = length h1 \<and> (\<forall>a. a \<notin> set refs \<longrightarrow> h' ! a = h1 ! a))"
        unfolding W_def by (rule "1.IH"[OF False pop riv v1 refl])
      have s1: "arc_loop pick orig arcs doms = arc_loop pick orig W (view h1 refs)"
        unfolding W_def by (rule arc_loop_step[where pick = pick, OF False pop riv])
      have s2: "arc_loop_st pick orig arcs refs h = arc_loop_st pick orig W refs h1"
        unfolding W_def by (rule arc_loop_st_step[where pick = pick, OF False pop' st])
      show ?thesis unfolding s1 s2
      proof (intro conjI allI impI)
        show "arc_loop pick orig W (view h1 refs) =
              map_option (map_sum id (\<lambda>h'. view h' refs)) (arc_loop_st pick orig W refs h1)"
          using ih by (rule conjunct1)
      next
        fix h' assume "arc_loop_st pick orig W refs h1 = Some (Inr h')"
        with ih have "length h' = length h1" by blast
        with l1 show "length h' = length h" by simp
      next
        fix h' a assume run: "arc_loop_st pick orig W refs h1 = Some (Inr h')"
          and a: "a \<notin> set refs"
        from ih run a have "h' ! a = h1 ! a" by blast
        with f1 a show "h' ! a = h ! a" by simp
      qed
    qed
  qed
qed

lemma arc_consistency_st_refines:
  assumes "valid h refs"
  shows "arc_consistency pick (view h refs) cs =
           map_option (map_sum id (\<lambda>h'. view h' refs)) (arc_consistency_st pick h refs cs) \<and>
         (\<forall>h'. arc_consistency_st pick h refs cs = Some (Inr h') \<longrightarrow>
            length h' = length h \<and> (\<forall>a. a \<notin> set refs \<longrightarrow> h' ! a = h ! a))"
proof -
  from build_arcs_set[of cs "[]"] obtain arcs where "build_arcs cs [] = Inr arcs" by auto
  then show ?thesis
    using arc_loop_st_refines[OF assms refl, of pick arcs arcs]
    by (simp add: arc_consistency_def arc_consistency_st_def)
qed

lemma copy_domains_eq:
  "date_range < length h \<Longrightarrow>
   copy_domains nums date_range h =
     (h @ replicate (length nums) (h ! date_range), [length h..<length h + length nums])"
proof (induction nums arbitrary: h)
  case Nil
  then show ?case by simp
next
  case (Cons num rest)
  let ?h1 = "h @ [h ! date_range]"
  let ?k = "length rest"
  from Cons.prems have lt: "date_range < length ?h1" and same: "?h1 ! date_range = h ! date_range"
    by (simp_all add: nth_append)
  have rec: "copy_domains rest date_range ?h1 =
          (?h1 @ replicate ?k (?h1 ! date_range), [length ?h1..<length ?h1 + ?k])"
    using lt by (rule Cons.IH)
  have a: "?h1 @ replicate ?k (?h1 ! date_range) = h @ replicate (Suc ?k) (h ! date_range)"
    unfolding same by simp
  have "[length h..<length h + Suc ?k] = length h # [Suc (length h)..<length h + Suc ?k]"
    by (rule upt_conv_Cons) simp
  moreover have "length ?h1 = Suc (length h)" "length ?h1 + ?k = length h + Suc ?k" by simp_all
  ultimately have b: "length h # [length ?h1..<length ?h1 + ?k] = [length h..<length h + Suc ?k]"
    by (simp only:)
  have c: "length (num # rest) = Suc ?k" by simp
  have "copy_domains (num # rest) date_range h =
          (case copy_domains rest date_range ?h1 of (h'', domains) \<Rightarrow> (h'', length h # domains))"
    by (simp add: copy_set_def)
  also have "\<dots> = (?h1 @ replicate ?k (?h1 ! date_range), length h # [length ?h1..<length ?h1 + ?k])"
    by (simp only: rec prod.case)
  finally show ?case by (simp only: a b c)
qed

lemma fresh_domains:
  fixes n :: nat and h :: "'a store"
  assumes "date_range < length h"
  defines "h0 \<equiv> h @ replicate n (h ! date_range)"
    and "refs \<equiv> [length h..<length h + n]"
  shows "copy_domains [0..<n] date_range h = (h0, refs)"
    and "valid h0 refs"
    and "view h0 refs = map (\<lambda>num. h ! date_range) [0..<n]"
    and "date_range \<notin> set refs"
    and "take (length h) h0 = h"
proof -
  show "copy_domains [0..<n] date_range h = (h0, refs)"
    using assms(1) by (simp add: copy_domains_eq h0_def refs_def)
  show "valid h0 refs"
    by (simp add: valid_def h0_def refs_def list_all_iff)
  show "view h0 refs = map (\<lambda>num. h ! date_range) [0..<n]"
    by (rule nth_equalityI) (simp_all add: view_def h0_def refs_def nth_append)
  show "date_range \<notin> set refs" using assms(1) by (simp add: refs_def)
  show "take (length h) h0 = h" by (simp add: h0_def)
qed

text \<open>
  C6 (caller frame and independent domains): let the caller's set be at the address
  \<open>date_range\<close> of the store. The domains that \<open>solve\<close> builds are \<open>n_meetings\<close>
  pairwise different new addresses, none of them an address of the caller, each holding
  a copy of the caller's set, and the objects of the caller are as before. Read through
  these addresses, \<open>node_consistency\<close> and \<open>arc_consistency\<close> on the store do what
  they compute on a list of set values, where no two variables can share a set; a
  revision of an arc changes the domain of no variable but the tail. \<open>solve\<close> on the
  store answers as \<open>solve\<close> on values does, and when it returns, with or without a
  solution, every object the caller had is unchanged, the set \<open>date_range\<close> among them.
\<close>

theorem solve_domains_independent:
  assumes dr: "date_range < length h"
  shows "(case copy_domains [0..<n_meetings] date_range h of
            (h0, domains) \<Rightarrow>
              distinct domains \<and> length domains = n_meetings \<and>
              list_all (\<lambda>a. length h \<le> a \<and> a < length h0) domains \<and>
              take (length h) h0 = h \<and>
              view h0 domains = map (\<lambda>num. h ! date_range) [0..<n_meetings] \<and>
              map_sum id (\<lambda>h'. view h' domains) (node_consistency_st h0 domains constraints) =
                node_consistency (map (\<lambda>num. h ! date_range) [0..<n_meetings]) constraints \<and>
              (\<forall>h1 arc removed h2 j.
                 remove_inconsistent_values_st h1 domains arc = Inr (removed, h2) \<longrightarrow>
                 j < length domains \<longrightarrow> j \<noteq> TAIL arc \<longrightarrow>
                 h2 ! (domains ! j) = h1 ! (domains ! j)) \<and>
              (\<forall>h1. list_all (\<lambda>a. a < length h1) domains \<longrightarrow>
                 map_option (map_sum id (\<lambda>h'. view h' domains))
                   (arc_consistency_st pick h1 domains constraints) =
                 arc_consistency pick (view h1 domains) constraints)) \<and>
         map_option (map_sum id snd) (solve_st pick h n_meetings date_range constraints) =
           solve pick n_meetings (h ! date_range) constraints \<and>
         (\<forall>h' solution.
            solve_st pick h n_meetings date_range constraints = Some (Inr (h', solution)) \<longrightarrow>
            take (length h) h' = h \<and> h' ! date_range = h ! date_range)"
proof -
  define h0 where "h0 = h @ replicate n_meetings (h ! date_range)"
  define refs where "refs = [length h..<length h + n_meetings]"
  note fd = fresh_domains[OF dr, of n_meetings, folded h0_def refs_def]
  let ?d0 = "map (\<lambda>num. h ! date_range) [0..<n_meetings]"
  from fd(2) have dist: "distinct refs" by (simp add: valid_def)
  have old: "a \<notin> set refs" if "a < length h" for a using that by (simp add: refs_def)
  from node_consistency_st_refines[OF fd(2), of constraints] fd(3)
  have nc: "map_sum id (\<lambda>h'. view h' refs) (node_consistency_st h0 refs constraints) =
              node_consistency ?d0 constraints"
    and f1: "\<forall>h1. node_consistency_st h0 refs constraints = Inr h1 \<longrightarrow>
               length h1 = length h0 \<and> (\<forall>a. a \<notin> set refs \<longrightarrow> h1 ! a = h0 ! a)"
    by simp_all
  have ac: "arc_consistency pick (view h1 refs) constraints =
              map_option (map_sum id (\<lambda>h'. view h' refs))
                (arc_consistency_st pick h1 refs constraints) \<and>
            (\<forall>h'. arc_consistency_st pick h1 refs constraints = Some (Inr h') \<longrightarrow>
               length h' = length h1 \<and> (\<forall>a. a \<notin> set refs \<longrightarrow> h' ! a = h1 ! a))"
    if "list_all (\<lambda>a. a < length h1) refs" for h1
    using that dist by (intro arc_consistency_st_refines) (simp add: valid_def)
  have keep: "take (length h) h' = h \<and> h' ! date_range = h ! date_range"
    if n: "node_consistency_st h0 refs constraints = Inr h1"
      and run: "arc_consistency_st pick h1 refs constraints = Some (Inr h')" for h1 h'
  proof -
    from f1 n have l1: "length h1 = length h0"
      and fr1: "\<forall>a. a \<notin> set refs \<longrightarrow> h1 ! a = h0 ! a" by simp_all
    from fd(2) l1 have "list_all (\<lambda>a. a < length h1) refs" by (simp add: valid_def)
    from ac[OF this] run have l2: "length h' = length h1"
      and fr2: "\<forall>a. a \<notin> set refs \<longrightarrow> h' ! a = h1 ! a" by simp_all
    have same: "h' ! a = h ! a" if "a < length h" for a
    proof -
      from that have "a \<notin> set refs" by (rule old)
      with fr1 fr2 have "h' ! a = h0 ! a" by simp
      with that show ?thesis by (simp add: h0_def nth_append)
    qed
    have len: "length h' = length h + n_meetings" unfolding l2 l1 by (simp add: h0_def)
    have "take (length h) h' = h"
      by (rule nth_equalityI) (simp_all add: len same)
    with same[OF dr] show ?thesis by simp
  qed
  have part2: "map_option (map_sum id snd) (solve_st pick h n_meetings date_range constraints) =
      solve pick n_meetings (h ! date_range) constraints"
  proof (cases "node_consistency_st h0 refs constraints")
    case (Inl e)
    with nc have "node_consistency ?d0 constraints = Inl e" by simp
    with Inl fd(1) show ?thesis by (simp add: solve_st_def solve_def Let_def)
  next
    case n: (Inr h1)
    with nc have nv: "node_consistency ?d0 constraints = Inr (view h1 refs)" by simp
    from f1 n fd(2) have "list_all (\<lambda>a. a < length h1) refs" by (simp add: valid_def)
    note ac1 = ac[OF this, THEN conjunct1]
    show ?thesis
    proof (cases "arc_consistency_st pick h1 refs constraints")
      case None
      with ac1 n nv fd(1) show ?thesis by (simp add: solve_st_def solve_def Let_def)
    next
      case (Some res)
      show ?thesis
      proof (cases res)
        case (Inl e)
        with Some ac1 n nv fd(1) show ?thesis by (simp add: solve_st_def solve_def Let_def)
      next
        case (Inr h')
        with Some keep[OF n] have "h' ! date_range = h ! date_range" by simp
        with Some Inr ac1 n nv fd(1) show ?thesis
          by (simp add: solve_st_def solve_def Let_def split: sum.splits)
      qed
    qed
  qed
  have part3: "\<forall>h' solution.
      solve_st pick h n_meetings date_range constraints = Some (Inr (h', solution)) \<longrightarrow>
      take (length h) h' = h \<and> h' ! date_range = h ! date_range"
  proof (intro allI impI)
    fix h' solution
    assume "solve_st pick h n_meetings date_range constraints = Some (Inr (h', solution))"
    with fd(1) obtain h1 where "node_consistency_st h0 refs constraints = Inr h1"
      and "arc_consistency_st pick h1 refs constraints = Some (Inr h')"
      by (auto simp: solve_st_def split: option.splits sum.splits)
    then show "take (length h) h' = h \<and> h' ! date_range = h ! date_range" by (rule keep)
  qed
  have part4: "\<forall>h1 arc removed h2 j.
      remove_inconsistent_values_st h1 refs arc = Inr (removed, h2) \<longrightarrow>
      j < length refs \<longrightarrow> j \<noteq> TAIL arc \<longrightarrow> h2 ! (refs ! j) = h1 ! (refs ! j)"
    using dist by (blast intro: riv_st_local)
  have part5: "\<forall>h1. list_all (\<lambda>a. a < length h1) refs \<longrightarrow>
      map_option (map_sum id (\<lambda>h'. view h' refs))
        (arc_consistency_st pick h1 refs constraints) =
      arc_consistency pick (view h1 refs) constraints"
    using ac by simp
  have part1: "distinct refs \<and> length refs = n_meetings \<and>
      list_all (\<lambda>a. length h \<le> a \<and> a < length h0) refs \<and> take (length h) h0 = h"
    using fd(5) by (simp add: refs_def h0_def list_all_iff)
  have inner: "distinct refs \<and> length refs = n_meetings \<and>
      list_all (\<lambda>a. length h \<le> a \<and> a < length h0) refs \<and> take (length h) h0 = h \<and>
      view h0 refs = ?d0 \<and>
      map_sum id (\<lambda>h'. view h' refs) (node_consistency_st h0 refs constraints) =
        node_consistency ?d0 constraints \<and>
      (\<forall>h1 arc removed h2 j.
         remove_inconsistent_values_st h1 refs arc = Inr (removed, h2) \<longrightarrow>
         j < length refs \<longrightarrow> j \<noteq> TAIL arc \<longrightarrow> h2 ! (refs ! j) = h1 ! (refs ! j)) \<and>
      (\<forall>h1. list_all (\<lambda>a. a < length h1) refs \<longrightarrow>
         map_option (map_sum id (\<lambda>h'. view h' refs))
           (arc_consistency_st pick h1 refs constraints) =
         arc_consistency pick (view h1 refs) constraints)"
    using part1 part4 part5 fd(3) nc by simp
  show ?thesis unfolding fd(1) prod.case using inner part2 part3 by blast
qed

section \<open>The properties at concrete inputs\<close>

lemmas run_defs = solve_def node_consistency_def arc_consistency_def Arc_init_def set_add_def
  set_pop_def set_remove_def remove_inconsistent_values_def is_complete_def Let_def
  arc_loop.simps recursive_backtracker.simps pop_first_def before_0_1_def after_day_1_def

lemmas run_st_defs = solve_st_def copy_set_def node_consistency_st_def arc_consistency_st_def
  remove_inconsistent_values_st_def arc_loop_st.simps view_def

theorem node_consistency_exact_witness:
  "node_consistency [[1, 2, 3], [1, 2, 3]] [after_day_1] = Inr [[2, 3], [1, 2, 3]] \<and>
   length [[2, 3], [1, 2, 3 :: nat]] = length [[1, 2, 3], [1, 2, 3 :: nat]] \<and>
   (0 :: nat) < length [[1, 2, 3], [1, 2, 3 :: nat]] \<and>
   [[2, 3], [1, 2, 3 :: nat]] ! 0 = filter ((<) 1) ([[1, 2, 3], [1, 2, 3]] ! 0) \<and>
   distinct [1, 2, 3 :: nat]"
proof -
  have run: "node_consistency [[1, 2, 3], [1, 2, 3]] [after_day_1] = Inr [[2, 3], [1, 2, 3]]"
    by (simp add: run_defs)
  from node_consistency_exact[of "[[1, 2, 3], [1, 2, 3]]" "[after_day_1]" "[[2, 3], [1, 2, 3]]"]
    run
  show ?thesis by simp
qed

theorem arc_consistency_terminates_witness:
  "(\<exists>r. arc_consistency pop_first [[1, 2], [1, 2]] [before_0_1] = Some r) \<and>
   remove_inconsistent_values [[1, 2], [1, 2]] \<lparr>CONSTRAINT = before_0_1, TAIL = 0, HEAD = 1\<rparr> =
     Inr (True, [[1], [1, 2]]) \<and>
   total_size [[1], [1, 2 :: nat]] < total_size [[1, 2], [1, 2 :: nat]]"
proof -
  have run: "remove_inconsistent_values [[1, 2], [1, 2]]
      \<lparr>CONSTRAINT = before_0_1, TAIL = 0, HEAD = 1\<rparr> = Inr (True, [[1], [1, 2]])"
    by (simp add: run_defs)
  from arc_consistency_terminates[of pop_first "[]" "[]" "[[1, 2], [1, 2]]" "[before_0_1]"
      "\<lparr>CONSTRAINT = before_0_1, TAIL = 0, HEAD = 1\<rparr>" True "[[1], [1, 2]]"] run
  show ?thesis by simp
qed

theorem arc_consistency_postcondition_witness:
  "arc_consistency pop_first [[1, 2], [1, 2]] [before_0_1] = Some (Inr [[1], [2]]) \<and>
   before_0_1 \<in> set [before_0_1] \<and> arity before_0_1 = 2 \<and>
   is_satisfied_by_values before_0_1 [1, 2]"
proof -
  have run: "arc_consistency pop_first [[1, 2], [1, 2]] [before_0_1] = Some (Inr [[1], [2]])"
    by (simp add: run_defs)
  have mem: "before_0_1 \<in> set [before_0_1]" by simp
  have bin: "arity before_0_1 = 2" by (simp add: before_0_1_def)
  from arc_consistency_postcondition[OF run mem bin, of before_0_1] run mem bin
  show ?thesis by (simp add: before_0_1_def)
qed

theorem arc_consistency_idempotent_witness:
  "arc_consistency pop_first [[1, 2], [1, 2]] [before_0_1] = Some (Inr [[1], [2]]) \<and>
   arc_consistent [[1], [2]] \<lparr>CONSTRAINT = before_0_1, TAIL = 0, HEAD = 1\<rparr> \<and>
   arc_consistency pop_first [[1], [2]] [before_0_1] = Some (Inr [[1], [2]])"
proof -
  have run: "arc_consistency pop_first [[1, 2], [1, 2]] [before_0_1] = Some (Inr [[1], [2]])"
    by (simp add: run_defs)
  have ok: "\<forall>c \<in> set [before_0_1]. \<forall>a \<in> arcs_of c. arc_consistent [[1], [2]] a"
    by (simp add: before_0_1_def arc_consistent_def)
  from arc_consistency_idempotent[of "[before_0_1]" "[[1], [2]]" pop_first pop_first
      "[[1, 2], [1, 2]]"] run ok
  show ?thesis by (simp add: before_0_1_def arc_consistent_def)
qed

theorem filtering_monotone_witness:
  "(0::nat) < length [[1], [1 :: nat]] \<and> in_range (length [[1], [1 :: nat]]) before_0_1 \<and>
   distinct [1 :: nat] \<and>
   arc_consistency pop_first [[1], [1]] [before_0_1] = Some (Inr [[], []]) \<and>
   node_consistency [[1], [1]] [after_day_1] = Inr [[], [1]] \<and>
   length [[], [] :: nat list] = length [[1], [1 :: nat]] \<and>
   set ([[], []] ! 0) \<subseteq> set ([[1], [1 :: nat]] ! 0) \<and>
   set ([[], [1]] ! 0) \<subseteq> set ([[1], [1 :: nat]] ! 0)"
proof -
  have run: "arc_consistency pop_first [[1], [1]] [before_0_1] = Some (Inr [[], []])"
    by (simp add: run_defs)
  have nc: "node_consistency [[1], [1]] [after_day_1] = Inr [[], [1]]"
    by (simp add: run_defs)
  have rng: "\<forall>c \<in> set [before_0_1]. in_range (length [[1], [1 :: nat]]) c"
    by (simp add: in_range_def before_0_1_def)
  from filtering_monotone[of "[[1], [1]]" "[after_day_1]" "[[], [1]]" pop_first]
    filtering_monotone[of "[[1], [1]]" "[before_0_1]" "[[], []]" pop_first] run nc rng
  show ?thesis by simp
qed

theorem Arc_init_raises_iff_witness:
  "arity after_day_1 \<noteq> 2 \<and> Arc_init after_day_1 = Inl ValueError \<and>
   arity before_0_1 = 2 \<and>
   (\<exists>a. Arc_init before_0_1 = Inr a \<and> CONSTRAINT a = before_0_1 \<and> TAIL a = 0 \<and> HEAD a = 1)"
  using Arc_init_raises_iff[of after_day_1] Arc_init_raises_iff[of before_0_1]
  by (auto simp: after_day_1_def before_0_1_def)

theorem backtracker_index_safe_witness:
  "recursive_backtracker [] [[1], [2]] [1, 2] [before_0_1] \<noteq> Inl IndexError \<and>
   \<not> is_complete [] [[1], [2]] [before_0_1] \<and>
   consistent_with [before_0_1] [1] \<and> length [1 :: nat] \<le> length [[1], [2 :: nat]] \<and>
   \<not> is_complete [1] [[1], [2]] [before_0_1] \<and> length [1 :: nat] < length [[1], [2 :: nat]]"
  using backtracker_index_safe[of "[[1], [2]]" "[1, 2]" "[before_0_1]" IndexError "[1]"]
  by (simp add: is_complete_def before_0_1_def)

theorem solve_sound_witness:
  "solve pop_first 2 [1, 2] [before_0_1] = Some (Inr (Some [1, 2])) \<and>
   length [1, 2 :: nat] = 2 \<and> is_satisfied_by_assignment before_0_1 [1, 2]"
proof -
  have run: "solve pop_first 2 [1, 2] [before_0_1] = Some (Inr (Some [1, 2]))"
    by (simp add: run_defs eval_nat_numeral)
  from solve_sound[OF run] run show ?thesis by simp
qed



theorem solve_domains_independent_witness:
  "(0::nat) < length [[1, 2 :: nat]] \<and>
   copy_domains [0..<2] 0 [[1, 2 :: nat]] = ([[1, 2], [1, 2], [1, 2]], [1, 2]) \<and>
   solve_st pop_first [[1, 2]] 2 0 [before_0_1] = Some (Inr ([[1, 2], [1], [2]], Some [1, 2])) \<and>
   take (length [[1, 2 :: nat]]) [[1, 2], [1], [2]] = [[1, 2]] \<and>
   [[1, 2], [1], [2]] ! 0 = [[1, 2 :: nat]] ! 0"
proof -
  have dr: "(0::nat) < length [[1, 2 :: nat]]" by simp
  have run: "solve_st pop_first [[1, 2]] 2 0 [before_0_1] =
      Some (Inr ([[1, 2], [1], [2]], Some [1, 2]))"
    by (simp add: run_st_defs run_defs eval_nat_numeral)
  have cp: "copy_domains [0..<2] 0 [[1, 2 :: nat]] = ([[1, 2], [1, 2], [1, 2]], [1, 2])"
    by (simp add: copy_set_def eval_nat_numeral)
  from solve_domains_independent[OF dr, of 2 "[before_0_1]" pop_first] run cp
  show ?thesis by simp
qed

end
